theory Spec2Isabelle
  imports Main "HOL-Library.Sublist"
begin

section \<open>Python strings\<close>

text \<open>
  The worker \<^verbatim>\<open>danube_postprocess.py\<close> computes on Python \<^verbatim>\<open>str\<close> values. A \<^verbatim>\<open>str\<close> is
  modelled as a \<^typ>\<open>string\<close>, one \<^typ>\<open>char\<close> per code point, so the model covers the
  strings whose code points are below 256. \<^verbatim>\<open>s.startswith(p)\<close> is \<^term>\<open>prefix p s\<close>,
  \<^verbatim>\<open>s.endswith(p)\<close> is \<^term>\<open>suffix p s\<close> and \<^verbatim>\<open>p in s\<close> is \<^term>\<open>sublist p s\<close>.
\<close>

abbreviation LF :: char where "LF \<equiv> CHR 0x0A"
abbreviation CR :: char where "CR \<equiv> CHR 0x0D"

text \<open>
  \<^verbatim>\<open>str.isspace\<close>, which is also the class \<^verbatim>\<open>\s\<close> of \<^verbatim>\<open>re\<close> on \<^verbatim>\<open>str\<close> patterns: below 256 the
  white space characters are 0x09 to 0x0D, 0x1C to 0x1F, the space, 0x85 and 0xA0.
\<close>

definition is_space :: "char \<Rightarrow> bool" where
  "is_space c \<longleftrightarrow>
     c \<in> set [CHR 0x09, CHR 0x0A, CHR 0x0B, CHR 0x0C, CHR 0x0D, CHR 0x1C, CHR 0x1D, CHR 0x1E,
              CHR 0x1F, CHR 0x20, CHR 0x85, CHR 0xA0]"

text \<open>
  The line boundaries of \<^verbatim>\<open>str.splitlines\<close> below 256: LF, CR (and CR LF as one boundary),
  0x0B, 0x0C, 0x1C, 0x1D, 0x1E and 0x85.
\<close>

definition is_linebreak :: "char \<Rightarrow> bool" where
  "is_linebreak c \<longleftrightarrow>
     c \<in> set [CHR 0x0A, CHR 0x0D, CHR 0x0B, CHR 0x0C, CHR 0x1C, CHR 0x1D, CHR 0x1E, CHR 0x85]"

definition lstrip :: "string \<Rightarrow> string" where
  "lstrip s = dropWhile is_space s"

definition rstrip :: "string \<Rightarrow> string" where
  "rstrip s = rev (dropWhile is_space (rev s))"

definition strip :: "string \<Rightarrow> string" where
  "strip s = rstrip (lstrip s)"

text \<open>
  \<^verbatim>\<open>s.splitlines()\<close>: \<open>cur\<close> is the line read so far. A boundary at the very end of the
  string opens no further line, and the empty string has no line.
\<close>

fun splitlines_from :: "string \<Rightarrow> string \<Rightarrow> string list" where
  "splitlines_from cur [] = (if cur = [] then [] else [cur])"
| "splitlines_from cur [c] = (if is_linebreak c then [cur] else [cur @ [c]])"
| "splitlines_from cur (c # d # cs) =
     (if c = CR \<and> d = LF then cur # splitlines_from [] cs
      else if is_linebreak c then cur # splitlines_from [] (d # cs)
      else splitlines_from (cur @ [c]) (d # cs))"

definition splitlines :: "string \<Rightarrow> string list" where
  "splitlines s = splitlines_from [] s"

text \<open>\<^verbatim>\<open>"\n".join(lines)\<close>.\<close>

fun join_nl :: "string list \<Rightarrow> string" where
  "join_nl [] = []"
| "join_nl [l] = l"
| "join_nl (l # m # ls) = l @ LF # join_nl (m # ls)"

text \<open>
  \<^verbatim>\<open>s.find(sub)\<close> and \<^verbatim>\<open>s.rfind(sub)\<close>: the lowest and the highest index at which \<open>sub\<close>
  occurs; \<^term>\<open>None\<close> stands for Python's \<open>-1\<close>.
\<close>

fun find_sub :: "string \<Rightarrow> string \<Rightarrow> nat option" where
  "find_sub [] sub = (if sub = [] then Some 0 else None)"
| "find_sub (c # cs) sub =
     (if prefix sub (c # cs) then Some 0 else map_option Suc (find_sub cs sub))"

fun rfind_sub :: "string \<Rightarrow> string \<Rightarrow> nat option" where
  "rfind_sub [] sub = (if sub = [] then Some 0 else None)"
| "rfind_sub (c # cs) sub =
     (case rfind_sub cs sub of
        Some i \<Rightarrow> Some (Suc i)
      | None \<Rightarrow> if prefix sub (c # cs) then Some 0 else None)"

text \<open>\<^verbatim>\<open>s.find(sub, start)\<close> for \<open>0 \<le> start\<close>.\<close>

definition find_from :: "string \<Rightarrow> string \<Rightarrow> nat \<Rightarrow> nat option" where
  "find_from s sub start =
     (if start \<le> length s then map_option (\<lambda>i. i + start) (find_sub (drop start s) sub)
      else None)"

text \<open>
  \<^verbatim>\<open>s.rsplit(sep, 1)\<close> for a non-empty separator: the string itself when \<open>sep\<close> does not
  occur, otherwise the parts before and after its last occurrence.
\<close>

definition rsplit1 :: "string \<Rightarrow> string \<Rightarrow> string list" where
  "rsplit1 s sep =
     (case rfind_sub s sep of
        None \<Rightarrow> [s]
      | Some i \<Rightarrow> [take i s, drop (i + length sep) s])"

text \<open>
  \<^verbatim>\<open>s.replace(old, "")\<close>: the occurrences of \<open>old\<close> are deleted from left to right, each
  search starting behind the previous occurrence.
\<close>

function str_remove :: "string \<Rightarrow> string \<Rightarrow> string" where
  "str_remove old [] = []"
| "str_remove old (c # cs) =
     (if old \<noteq> [] \<and> prefix old (c # cs) then str_remove old (drop (length old) (c # cs))
      else c # str_remove old cs)"
  by pat_completeness auto
termination
  by (relation "measure (\<lambda>(old, s). length s)") (auto simp: neq_Nil_conv)

section \<open>Output normalizer\<close>

text \<open>
  \<^verbatim>\<open>_strip_code_fences\<close>. \<^verbatim>\<open>re.sub(r"^```[^\n]*\n", "", s)\<close> deletes the first line with its
  line feed when the string starts with three backquotes and has a line feed at all
  (\<^verbatim>\<open>^\<close> matches at the start only, \<^verbatim>\<open>[^\n]*\<close> cannot pass a line feed).
  \<^verbatim>\<open>re.sub(r"\n```$", "", s)\<close> deletes a line feed and three backquotes at the end of the
  string, or before one last line feed, the two places where \<^verbatim>\<open>$\<close> matches.
\<close>

definition fence :: string where
  "fence = [CHR 0x60, CHR 0x60, CHR 0x60]"

definition sub_open_fence :: "string \<Rightarrow> string" where
  "sub_open_fence s =
     (if prefix fence s \<and> LF \<in> set (drop 3 s)
      then tl (dropWhile (\<lambda>c. c \<noteq> LF) (drop 3 s)) else s)"

definition sub_close_fence :: "string \<Rightarrow> string" where
  "sub_close_fence s =
     (if suffix (LF # fence) s then take (length s - 4) s
      else if suffix (LF # fence @ [LF]) s then take (length s - 5) s @ [LF]
      else s)"

definition strip_code_fences :: "string \<Rightarrow> string" where
  "strip_code_fences text =
     (let cleaned = text;
          cleaned = (if prefix fence cleaned then sub_open_fence cleaned else cleaned);
          cleaned = (if suffix fence cleaned then sub_close_fence cleaned else cleaned)
      in cleaned)"

text \<open>
  The pattern \<^verbatim>\<open>(?i)^(the\s+)?corrected\s+text\s+is\s+as\s+follows:?\s*$\<close> of
  \<^verbatim>\<open>_strip_prefix_lines\<close>, matched against a stripped line. \<open>word_ci w s\<close> reads the
  letters of \<open>w\<close> in either case and \<open>spaces1\<close> reads \<^verbatim>\<open>\s+\<close>; both return what is left of
  the line. Each word of the pattern starts with a letter, so \<^verbatim>\<open>\s+\<close> always reads all
  the white space there is, and the optional parts are read whenever they are present.
\<close>

definition lower_ascii :: "char \<Rightarrow> char" where
  "lower_ascii c =
     (if 65 \<le> (of_char c :: nat) \<and> (of_char c :: nat) \<le> 90 then char_of (of_char c + 32 :: nat)
      else c)"

fun word_ci :: "string \<Rightarrow> string \<Rightarrow> string option" where
  "word_ci [] s = Some s"
| "word_ci (w # ws) [] = None"
| "word_ci (w # ws) (c # cs) = (if lower_ascii c = w then word_ci ws cs else None)"

definition spaces1 :: "string \<Rightarrow> string option" where
  "spaces1 s = (case s of [] \<Rightarrow> None
                | c # cs \<Rightarrow> if is_space c then Some (dropWhile is_space cs) else None)"

text \<open>Reading a sequence of pattern parts one after the other.\<close>

fun read_all :: "(string \<Rightarrow> string option) list \<Rightarrow> string \<Rightarrow> string option" where
  "read_all [] s = Some s"
| "read_all (r # rs) s = (case r s of None \<Rightarrow> None | Some s' \<Rightarrow> read_all rs s')"

definition after_the :: "string \<Rightarrow> string" where
  "after_the s = (case read_all [word_ci ''the'', spaces1] s of Some r \<Rightarrow> r | None \<Rightarrow> s)"

definition after_colon :: "string \<Rightarrow> string" where
  "after_colon s = (case s of c # cs \<Rightarrow> if c = CHR '':'' then cs else s | [] \<Rightarrow> s)"

definition is_preamble :: "string \<Rightarrow> bool" where
  "is_preamble line =
     (case read_all
             [word_ci ''corrected'', spaces1, word_ci ''text'', spaces1, word_ci ''is'', spaces1,
              word_ci ''as'', spaces1, word_ci ''follows'']
             (after_the line) of
        None \<Rightarrow> False
      | Some r \<Rightarrow> dropWhile is_space (after_colon r) = [])"

text \<open>The loop of \<^verbatim>\<open>_strip_prefix_lines\<close> that pops the leading lines which match.\<close>

fun pop_preamble :: "string list \<Rightarrow> string list" where
  "pop_preamble [] = []"
| "pop_preamble (line # lines) =
     (if is_preamble (strip line) then pop_preamble lines else line # lines)"

definition strip_prefix_lines :: "string \<Rightarrow> string" where
  "strip_prefix_lines text = strip (join_nl (pop_preamble (splitlines text)))"

text \<open>\<^verbatim>\<open>_extract_between\<close>; \<^verbatim>\<open>text[start_idx:end_idx]\<close> with \<open>start_idx \<le> end_idx\<close>.\<close>

definition extract_between :: "string \<Rightarrow> string \<Rightarrow> string \<Rightarrow> string" where
  "extract_between text start end' =
     (case rfind_sub text start of
        None \<Rightarrow> []
      | Some i \<Rightarrow>
          (let start_idx = i + length start in
           case find_from text end' start_idx of
             None \<Rightarrow> []
           | Some end_idx \<Rightarrow> strip (take (end_idx - start_idx) (drop start_idx text))))"

definition TEXT_marker :: string where "TEXT_marker = ''<<<TEXT>>>''"
definition END_marker :: string where "END_marker = ''<<<END>>>''"
definition OUT_marker :: string where "OUT_marker = ''<<<OUT>>>''"
definition ENDOUT_marker :: string where "ENDOUT_marker = ''<<<ENDOUT>>>''"

text \<open>
  The marker scrub \<^verbatim>\<open>for marker in (...): cleaned = cleaned.replace(marker, "")\<close>.
\<close>

definition scrub_markers :: "string \<Rightarrow> string" where
  "scrub_markers cleaned =
     foldl (\<lambda>s marker. str_remove marker s) cleaned
       [TEXT_marker, END_marker, OUT_marker, ENDOUT_marker]"

text \<open>
  \<^verbatim>\<open>_clean_output\<close>. Under the guard \<^verbatim>\<open>"<<<OUT>>>" in cleaned\<close> the split has two parts, so
  the element \<^verbatim>\<open>[1]\<close> exists and the last case of the case expression is not taken.
\<close>

definition clean_output :: "string \<Rightarrow> string" where
  "clean_output output =
     (let cleaned = strip output in
      if cleaned = [] then []
      else
        let cleaned = strip (strip_code_fences cleaned);
            cleaned = strip_prefix_lines cleaned;
            cleaned =
              (if sublist TEXT_marker cleaned \<and> sublist END_marker cleaned then
                 (let extracted = extract_between cleaned TEXT_marker END_marker in
                  if extracted \<noteq> [] then extracted else cleaned)
               else cleaned);
            cleaned =
              (if sublist OUT_marker cleaned then
                 (case rsplit1 cleaned OUT_marker of
                    [_, t] \<Rightarrow> (let tail = strip t in if tail \<noteq> [] then tail else cleaned)
                  | _ \<Rightarrow> cleaned)
               else cleaned);
            cleaned = scrub_markers cleaned;
            cleaned = strip_prefix_lines cleaned;
            cleaned = strip (strip_code_fences cleaned)
        in cleaned)"

text \<open>\<^verbatim>\<open>is_table_line\<close> inside \<^verbatim>\<open>_add_table_spacing\<close>.\<close>

definition is_table_line :: "string \<Rightarrow> bool" where
  "is_table_line line =
     (let stripped = lstrip line in
      prefix ''|'' stripped \<and> count_list stripped (CHR ''|'') \<ge> 2)"

text \<open>A line is blank when \<^verbatim>\<open>line.strip()\<close> is empty.\<close>

definition is_blank :: "string \<Rightarrow> bool" where
  "is_blank line \<longleftrightarrow> strip line = []"

text \<open>
  The loop of \<^verbatim>\<open>_add_table_spacing\<close>: the second argument is \<^verbatim>\<open>lines[i:]\<close>. On a table
  line the inner loop takes the whole run of table lines.
\<close>

function table_loop :: "string list \<Rightarrow> string list \<Rightarrow> string list" where
  "table_loop result [] = result"
| "table_loop result (line # lines) =
     (if is_table_line line then
        (let run = takeWhile is_table_line (line # lines);
             rest = dropWhile is_table_line (line # lines);
             result = (if result \<noteq> [] \<and> \<not> is_blank (last result) then result @ [[]] else result);
             result = result @ run;
             result = (if rest \<noteq> [] \<and> \<not> is_blank (hd rest) then result @ [[]] else result)
         in table_loop result rest)
      else table_loop (result @ [line]) lines)"
  by pat_completeness auto
termination
  by (relation "measure (\<lambda>(result, lines). length lines)")
    (auto simp: less_Suc_eq_le length_dropWhile_le)

definition add_table_spacing :: "string \<Rightarrow> string" where
  "add_table_spacing text =
     (let lines = splitlines text in
      if lines = [] then text else rstrip (join_nl (table_loop [] lines)))"

text \<open>
  The pattern \<^verbatim>\<open>^\s*([A-H]|\d{1,2})[.)]\s+\<close> of \<^verbatim>\<open>_add_option_spacing\<close>, matched at the
  start of a line: white space, then a letter from A to H or one or two digits, then a
  full stop or a closing parenthesis, then at least one white space character.
\<close>

definition is_digit :: "char \<Rightarrow> bool" where
  "is_digit c \<longleftrightarrow> c \<in> set ''0123456789''"

definition punct_space :: "string \<Rightarrow> bool" where
  "punct_space s =
     (case s of p # w # _ \<Rightarrow> (p = CHR ''.'' \<or> p = CHR '')'') \<and> is_space w | _ \<Rightarrow> False)"

definition is_option :: "string \<Rightarrow> bool" where
  "is_option line =
     (case dropWhile is_space line of
        [] \<Rightarrow> False
      | c # r \<Rightarrow>
          (c \<in> set ''ABCDEFGH'' \<and> punct_space r) \<or>
          (is_digit c \<and>
             (punct_space r \<or> (case r of d # r' \<Rightarrow> is_digit d \<and> punct_space r' | [] \<Rightarrow> False))))"

text \<open>
  The loop of \<^verbatim>\<open>_add_option_spacing\<close> with its state, the lines emitted so far and the
  flag \<^verbatim>\<open>in_option_block\<close>.
\<close>

fun option_loop :: "string list \<Rightarrow> bool \<Rightarrow> string list \<Rightarrow> string list" where
  "option_loop result in_option_block [] = result"
| "option_loop result in_option_block (line # lines) =
     (if is_option line then
        option_loop
          ((if \<not> in_option_block \<and> result \<noteq> [] \<and> \<not> is_blank (last result)
            then result @ [[]] else result) @ [line])
          True lines
      else
        option_loop (result @ [line])
          (if \<not> is_blank line then False else in_option_block) lines)"

definition add_option_spacing :: "string \<Rightarrow> string" where
  "add_option_spacing text =
     (let lines = splitlines text in
      if lines = [] then text else rstrip (join_nl (option_loop [] False lines)))"

text \<open>
  What \<^verbatim>\<open>_process_one\<close> does with the text that the model generated: the response text
  as a function of the raw output.
\<close>

definition normalize_output :: "string \<Rightarrow> string" where
  "normalize_output output =
     (let cleaned = clean_output output in
      if cleaned = [] then []
      else add_option_spacing (add_table_spacing cleaned))"

section \<open>Model resolver: choosing a file from a repository catalog\<close>

text \<open>
  \<^verbatim>\<open>preferred = ["Q4_K_M", "Q4_K", "Q4", "q4"]\<close> in \<^verbatim>\<open>_choose_gguf\<close>.
\<close>

definition preferred :: "string list" where
  "preferred = [''Q4_K_M'', ''Q4_K'', ''Q4'', ''q4'']"

text \<open>The inner loop \<^verbatim>\<open>for name in ggufs: if tag in name: return name\<close>.\<close>

fun first_with_tag :: "string \<Rightarrow> string list \<Rightarrow> string option" where
  "first_with_tag tag [] = None"
| "first_with_tag tag (name # names) =
     (if sublist tag name then Some name else first_with_tag tag names)"

text \<open>The outer loop \<^verbatim>\<open>for tag in preferred\<close>, which returns at the first hit.\<close>

fun scan_tags :: "string list \<Rightarrow> string list \<Rightarrow> string option" where
  "scan_tags [] ggufs = None"
| "scan_tags (tag # tags) ggufs =
     (case first_with_tag tag ggufs of
        Some name \<Rightarrow> Some name
      | None \<Rightarrow> scan_tags tags ggufs)"

definition gguf_files :: "string list \<Rightarrow> string list" where
  "gguf_files files = filter (\<lambda>f. suffix ''.gguf'' f) files"

definition choose_gguf :: "string list \<Rightarrow> bool \<Rightarrow> string" where
  "choose_gguf files require_q4 =
     (let ggufs = gguf_files files in
      if ggufs = [] then ''''
      else case scan_tags preferred ggufs of
             Some name \<Rightarrow> name
           | None \<Rightarrow> if require_q4 then '''' else hd ggufs)"

text \<open>
  \<^verbatim>\<open>require_q4 = os.environ.get("DANUBE_ALLOW_NON_Q4", "0") == "0"\<close>: the argument is the
  value of the environment variable, \<^term>\<open>None\<close> when it is not set.
\<close>

definition require_q4_of_env :: "string option \<Rightarrow> bool" where
  "require_q4_of_env v = ((case v of None \<Rightarrow> ''0'' | Some s \<Rightarrow> s) = ''0'')"

text \<open>
  The repository walk of \<^verbatim>\<open>_ensure_model\<close>: the catalog lookup \<^verbatim>\<open>_list_repo_files\<close> is a
  network call and enters as the function \<open>catalog\<close>; the walk stops at the first
  repository for which \<^verbatim>\<open>_choose_gguf\<close> returns a non-empty name.
\<close>

fun select_model :: "(string \<Rightarrow> string list) \<Rightarrow> bool \<Rightarrow> string list \<Rightarrow> (string \<times> string) option" where
  "select_model catalog require_q4 [] = None"
| "select_model catalog require_q4 (repo # repos) =
     (let chosen = choose_gguf (catalog repo) require_q4 in
      if chosen \<noteq> '''' then Some (repo, chosen)
      else select_model catalog require_q4 repos)"

section \<open>Prompt builder and protocol loop\<close>

text \<open>
  Exceptions are values: \<open>Error msg\<close> is any exception of class \<^verbatim>\<open>Exception\<close> with its
  message, and \<open>RuntimeError msg cause\<close> is the wrapped failure that \<^verbatim>\<open>_download_file\<close>
  raises \<^verbatim>\<open>from\<close> its cause.
\<close>

datatype exn = Error string | RuntimeError string exn

fun message :: "exn \<Rightarrow> string" where
  "message (Error msg) = msg"
| "message (RuntimeError msg cause) = msg"

text \<open>
  The values that \<^verbatim>\<open>json.loads\<close> returns. A float keeps only what the loop looks at,
  whether it is non-zero.
\<close>

datatype json =
    JNull
  | JBool bool
  | JInt int
  | JFloat bool
  | JString string
  | JArray "json list"
  | JObject "(string \<times> json) list"

text \<open>Python's truth value of a decoded value, as in \<^verbatim>\<open>if not text\<close>.\<close>

fun truthy :: "json \<Rightarrow> bool" where
  "truthy JNull = False"
| "truthy (JBool b) = b"
| "truthy (JInt i) = (i \<noteq> 0)"
| "truthy (JFloat nonzero) = nonzero"
| "truthy (JString s) = (s \<noteq> [])"
| "truthy (JArray xs) = (xs \<noteq> [])"
| "truthy (JObject kvs) = (kvs \<noteq> [])"

text \<open>\<^verbatim>\<open>len(text)\<close>: a \<^verbatim>\<open>TypeError\<close> for a value without a length.\<close>

fun py_len :: "json \<Rightarrow> exn + nat" where
  "py_len (JString s) = Inr (length s)"
| "py_len (JArray xs) = Inr (length xs)"
| "py_len (JObject kvs) = Inr (length kvs)"
| "py_len v = Inl (Error ''TypeError'')"

text \<open>
  \<^verbatim>\<open>_max_tokens\<close>; Python's integers are unbounded, and \<^verbatim>\<open>//\<close> on a non-negative length
  is \<^term>\<open>(div)\<close>.
\<close>

definition max_tokens :: "json \<Rightarrow> int \<Rightarrow> exn + int" where
  "max_tokens text n_ctx =
     (case py_len text of
        Inl err \<Rightarrow> Inl err
      | Inr n \<Rightarrow>
          (let estimate = max 128 (int n div 2) in
           Inr (max 128 (min 2048 (min estimate (max 128 (n_ctx - 128)))))))"

text \<open>The clamp of the specification: \<open>x\<close> limited from above by \<open>hi\<close>, then from below by \<open>lo\<close>.\<close>

definition clamp_spec :: "int \<Rightarrow> int \<Rightarrow> int \<Rightarrow> int" where
  "clamp_spec x lo hi = max lo (min x hi)"

text \<open>
  \<^verbatim>\<open>payload.get("text", "")\<close>: only a decoded object has the method, on any other value
  the call raises \<^verbatim>\<open>AttributeError\<close>.
\<close>

fun payload_get_text :: "json \<Rightarrow> exn + json" where
  "payload_get_text (JObject kvs) =
     Inr (case map_of kvs ''text'' of None \<Rightarrow> JString [] | Some v \<Rightarrow> v)"
| "payload_get_text v = Inl (Error ''AttributeError'')"

text \<open>
  What the loop takes from outside: the JSON decoder, the rendering \<^verbatim>\<open>str(v)\<close> of a value
  that is not a string, and the generation call with the element
  \<^verbatim>\<open>result["choices"][0]["text"]\<close> of its result, which returns a text or raises.
\<close>

record env =
  json_loads :: "string \<Rightarrow> exn + json"
  py_str :: "json \<Rightarrow> string"
  llm :: "string \<Rightarrow> int \<Rightarrow> exn + string"

definition format_text :: "env \<Rightarrow> json \<Rightarrow> string" where
  "format_text e v = (case v of JString s \<Rightarrow> s | _ \<Rightarrow> py_str e v)"

text \<open>\<^verbatim>\<open>_make_prompt\<close>.\<close>

definition make_prompt :: "string \<Rightarrow> string" where
  \<open>make_prompt text =
     ''You are a text post-processor.\<newline>'' @
     ''Rules:\<newline>'' @
     ''- Only adjust whitespace, line breaks, and indentation.\<newline>'' @
     ''- Fix missing spaces between words (example: "andthe" -> "and the").\<newline>'' @
     ''- Do not change words, punctuation, or numbers.\<newline>'' @
     ''- Do not add or remove content.\<newline>'' @
     ''- Preserve table pipes and dashes ("|" and "-") if present.\<newline>'' @
     ''- If table rows are present, keep the number of rows and column separators unchanged.\<newline>'' @
     ''- Add a blank line before and after any Markdown table block.\<newline>'' @
     ''- Add a blank line before multiple-choice answer blocks (A., B., C., etc.).\<newline>'' @
     ''- Do not repeat the input or any markers.\<newline>'' @
     ''Return only the corrected text.\<newline>'' @
     ''End your response with <<<ENDOUT>>> on its own line.\<newline>\<newline>'' @
     ''Text:\<newline>'' @
     ''<<<TEXT>>>\<newline>'' @
     text @ ''\<newline>'' @
     ''<<<END>>>\<newline>\<newline>'' @
     ''Corrected:\<newline>'' @
     ''<<<OUT>>>\<newline>''\<close>

text \<open>
  The state of the worker that the claims look at: the response lines written to the
  standard output, the generation calls made so far (prompt and token bound), and the
  messages logged to the standard error.
\<close>

datatype response = Ready | Text string

record state =
  out :: "response list"
  calls :: "(string \<times> int) list"
  logged :: "string list"

text \<open>
  \<^verbatim>\<open>_process_one\<close>: the result is the text or the exception raised, with the generation
  calls made. The prompt is built before the length is taken, and the call is made
  before its result is looked at.
\<close>

definition process_one ::
  "env \<Rightarrow> int \<Rightarrow> json \<Rightarrow> (string \<times> int) list \<Rightarrow> (exn + string) \<times> (string \<times> int) list" where
  "process_one e n_ctx text cs =
     (let prompt = make_prompt (format_text e text) in
      case max_tokens text n_ctx of
        Inl err \<Rightarrow> (Inl err, cs)
      | Inr bound \<Rightarrow>
          (case llm e prompt bound of
             Inl err \<Rightarrow> (Inl err, cs @ [(prompt, bound)])
           | Inr output \<Rightarrow> (Inr (normalize_output output), cs @ [(prompt, bound)])))"

text \<open>
  The body of the \<^verbatim>\<open>try\<close> statement in \<^verbatim>\<open>main\<close> for one stripped, non-empty line: the
  text of the response that it writes, or the exception that leaves it.
\<close>

definition try_body ::
  "env \<Rightarrow> int \<Rightarrow> string \<Rightarrow> (string \<times> int) list \<Rightarrow> (exn + string) \<times> (string \<times> int) list" where
  "try_body e n_ctx line cs =
     (case json_loads e line of
        Inl err \<Rightarrow> (Inl err, cs)
      | Inr payload \<Rightarrow>
          (case payload_get_text payload of
             Inl err \<Rightarrow> (Inl err, cs)
           | Inr text \<Rightarrow>
               if \<not> truthy text then (Inr [], cs)
               else process_one e n_ctx text cs))"

text \<open>
  One line of the loop with its \<^verbatim>\<open>except Exception\<close> handler, which logs the error and
  writes the empty response.
\<close>

definition handle_line :: "env \<Rightarrow> int \<Rightarrow> string \<Rightarrow> state \<Rightarrow> state" where
  "handle_line e n_ctx line st =
     (case try_body e n_ctx line (calls st) of
        (Inr text, cs) \<Rightarrow> st\<lparr>out := out st @ [Text text], calls := cs\<rparr>
      | (Inl err, cs) \<Rightarrow>
          st\<lparr>out := out st @ [Text []], calls := cs,
             logged := logged st @ [''Processing error: '' @ message err]\<rparr>)"

text \<open>The loop \<^verbatim>\<open>for line in sys.stdin\<close>.\<close>

fun main_loop :: "env \<Rightarrow> int \<Rightarrow> string list \<Rightarrow> state \<Rightarrow> state" where
  "main_loop e n_ctx [] st = st"
| "main_loop e n_ctx (raw # rest) st =
     (let line = strip raw in
      if line = [] then main_loop e n_ctx rest st
      else main_loop e n_ctx rest (handle_line e n_ctx line st))"

text \<open>
  \<^verbatim>\<open>main\<close>: \<open>init\<close> is the outcome of \<^verbatim>\<open>_ensure_model\<close> and \<^verbatim>\<open>_load_llm\<close>, the context length
  or the exception; the result is the exit code and the final state.
\<close>

definition main :: "env \<Rightarrow> exn + int \<Rightarrow> string list \<Rightarrow> int \<times> state" where
  "main e init stdin =
     (case init of
        Inl err \<Rightarrow> (2, \<lparr>out = [], calls = [], logged = [message err]\<rparr>)
      | Inr n_ctx \<Rightarrow>
          (0, main_loop e n_ctx stdin \<lparr>out = [Ready], calls = [], logged = []\<rparr>))"

section \<open>Model download\<close>

text \<open>
  \<^verbatim>\<open>_download_file\<close> works on the file system, a map from paths to file contents. What
  the outside does is given by a record: the outcome of \<^verbatim>\<open>_request\<close>, which is an
  exception or the outcomes of the successive \<^verbatim>\<open>response.read\<close> calls (a read past the
  end of the list returns the empty chunk), the exception of \<^verbatim>\<open>open\<close> if it fails, the
  exception of the \<open>k\<close>-th \<^verbatim>\<open>handle.write\<close> call if it fails, and the exception of
  \<^verbatim>\<open>os.remove\<close> if it fails. A write is taken to reach the file at once.
\<close>

record net =
  request :: "exn + (exn + string) list"
  open_error :: "exn option"
  write_error :: "nat \<Rightarrow> exn option"
  remove_error :: "exn option"

text \<open>
  The loop \<^verbatim>\<open>while True\<close> of the download: the content written so far and the number
  of writes made; the result is the exception that ended the loop, if any, with the
  content of the file.
\<close>

fun stream_loop :: "(nat \<Rightarrow> exn option) \<Rightarrow> (exn + string) list \<Rightarrow> string \<Rightarrow> nat \<Rightarrow> exn option \<times> string" where
  "stream_loop werr [] content k = (None, content)"
| "stream_loop werr (Inl err # reads) content k = (Some err, content)"
| "stream_loop werr (Inr chunk # reads) content k =
     (if chunk = [] then (None, content)
      else case werr k of
             Some err \<Rightarrow> (Some err, content)
           | None \<Rightarrow> stream_loop werr reads (content @ chunk) (Suc k))"

text \<open>The handler \<^verbatim>\<open>except Exception as exc\<close> of the download.\<close>

definition download_failed ::
  "net \<Rightarrow> string \<Rightarrow> exn \<Rightarrow> (string \<rightharpoonup> string) \<Rightarrow> (exn + unit) \<times> (string \<rightharpoonup> string)" where
  "download_failed n destination exc fs =
     (Inl (RuntimeError (''Failed to download model: '' @ message exc) exc),
      if destination \<in> dom fs then
        (case remove_error n of None \<Rightarrow> fs(destination := None) | Some _ \<Rightarrow> fs)
      else fs)"

definition download_file ::
  "net \<Rightarrow> string \<Rightarrow> (string \<rightharpoonup> string) \<Rightarrow> (exn + unit) \<times> (string \<rightharpoonup> string)" where
  "download_file n destination fs =
     (case request n of
        Inl exc \<Rightarrow> download_failed n destination exc fs
      | Inr reads \<Rightarrow>
          (case open_error n of
             Some exc \<Rightarrow> download_failed n destination exc fs
           | None \<Rightarrow>
               (case stream_loop (write_error n) reads [] 0 of
                  (Some exc, content) \<Rightarrow>
                    download_failed n destination exc (fs(destination \<mapsto> content))
                | (None, content) \<Rightarrow> (Inr (), fs(destination \<mapsto> content)))))"

text \<open>
  The content that a response streams: its chunks up to the first empty chunk.
\<close>

definition streamed :: "(exn + string) list \<Rightarrow> string" where
  "streamed reads = concat (map (\<lambda>r. case r of Inr chunk \<Rightarrow> chunk | Inl _ \<Rightarrow> [])
     (takeWhile (\<lambda>r. r \<noteq> Inr []) reads))"

section \<open>What the specification says, as functions\<close>

text \<open>
  The response line that the protocol owes to one stripped input line: the text that the
  \<^verbatim>\<open>try\<close> body writes, or the empty text when an exception leaves it.
\<close>

definition reply :: "env \<Rightarrow> int \<Rightarrow> string \<Rightarrow> response" where
  "reply e n_ctx line =
     Text (case fst (try_body e n_ctx line []) of Inl err \<Rightarrow> [] | Inr text \<Rightarrow> text)"

text \<open>
  The exception that occurs while a download streams, if any: in the request, in opening
  the destination, in a read or in a write.
\<close>

definition stream_failure :: "net \<Rightarrow> exn option" where
  "stream_failure n =
     (case request n of
        Inl exc \<Rightarrow> Some exc
      | Inr reads \<Rightarrow>
          (case open_error n of
             Some exc \<Rightarrow> Some exc
           | None \<Rightarrow> fst (stream_loop (write_error n) reads [] 0)))"

text \<open>
  Table spacing by the specification. Every source line is emitted once, in order. A
  blank line goes before a table line that starts a run (the source line before it is
  not a table line) when that line before it exists and is not blank, and after a table
  line that ends a run (the source line after it is not a table line) when that line
  after it exists and is not blank. The line emitted before a run is the source line
  before it, since a blank line is only ever added next to a table line.
\<close>

definition blank_before_run :: "string option \<Rightarrow> string \<Rightarrow> bool" where
  "blank_before_run prev line \<longleftrightarrow>
     is_table_line line \<and>
     (case prev of None \<Rightarrow> False | Some p \<Rightarrow> \<not> is_table_line p \<and> \<not> is_blank p)"

definition blank_after_run :: "string \<Rightarrow> string list \<Rightarrow> bool" where
  "blank_after_run line following \<longleftrightarrow>
     is_table_line line \<and>
     (case following of [] \<Rightarrow> False | n # _ \<Rightarrow> \<not> is_table_line n \<and> \<not> is_blank n)"

fun table_spacing_spec :: "string option \<Rightarrow> string list \<Rightarrow> string list" where
  "table_spacing_spec prev [] = []"
| "table_spacing_spec prev (line # lines) =
     (if blank_before_run prev line then [[]] else []) @ [line] @
     (if blank_after_run line lines then [[]] else []) @
     table_spacing_spec (Some line) lines"

text \<open>
  Option spacing by the specification. Every source line is emitted once, in order. A
  blank line goes before an option line that starts an option block: the source line
  before it exists, is not blank and is not an option line itself.
\<close>

definition blank_before_option :: "string option \<Rightarrow> string \<Rightarrow> bool" where
  "blank_before_option prev line \<longleftrightarrow>
     is_option line \<and>
     (case prev of None \<Rightarrow> False | Some p \<Rightarrow> \<not> is_blank p \<and> \<not> is_option p)"

fun option_spacing_spec :: "string option \<Rightarrow> string list \<Rightarrow> string list" where
  "option_spacing_spec prev [] = []"
| "option_spacing_spec prev (line # lines) =
     (if blank_before_option prev line then [[]] else []) @ [line] @
     option_spacing_spec (Some line) lines"

text \<open>
  Two neighbouring lines need no blank line between them, for the option pass and for
  the table pass.
\<close>

definition option_ok :: "string \<Rightarrow> string \<Rightarrow> bool" where
  "option_ok a b \<longleftrightarrow> \<not> (is_option b \<and> \<not> is_blank a \<and> \<not> is_option a)"

definition table_ok :: "string \<Rightarrow> string \<Rightarrow> bool" where
  "table_ok a b \<longleftrightarrow>
     \<not> (is_table_line b \<and> \<not> is_table_line a \<and> \<not> is_blank a) \<and>
     \<not> (is_table_line a \<and> \<not> is_table_line b \<and> \<not> is_blank b)"

text \<open>
  Notions for the facts about texts and lines: a text whose only line boundaries are line
  feeds, a line without any line boundary, the lines of a text after \<^verbatim>\<open>rstrip\<close> (the
  blank lines at the end are gone and the last line is right-stripped), and a text
  without its final line feed.
\<close>

definition lf_only :: "string \<Rightarrow> bool" where
  "lf_only s \<longleftrightarrow> (\<forall>c \<in> set s. is_linebreak c \<longrightarrow> c = LF)"

definition no_break :: "string \<Rightarrow> bool" where
  "no_break l \<longleftrightarrow> (\<forall>c \<in> set l. \<not> is_linebreak c)"

definition trim_lines :: "string list \<Rightarrow> string list" where
  "trim_lines ls =
     (let k = rev (dropWhile is_blank (rev ls)) in
      if k = [] then [] else butlast k @ [rstrip (last k)])"

definition chop_LF :: "string \<Rightarrow> string" where
  "chop_LF s = (if s \<noteq> [] \<and> last s = LF then butlast s else s)"

text \<open>
  A text in which none of the four markers occurs, and a list of lines whose first line
  starts with a character that is not white space.
\<close>

definition marker_free :: "string \<Rightarrow> bool" where
  "marker_free s \<longleftrightarrow>
     \<not> sublist TEXT_marker s \<and> \<not> sublist END_marker s \<and>
     \<not> sublist OUT_marker s \<and> \<not> sublist ENDOUT_marker s"

definition good_head :: "string list \<Rightarrow> bool" where
  "good_head ls \<longleftrightarrow> (case ls of [] \<Rightarrow> False | l # _ \<Rightarrow> l \<noteq> [] \<and> \<not> is_space (hd l))"

text \<open>Inputs on which the theorems below are run.\<close>

definition env0 :: env where
  "env0 = \<lparr>json_loads = (\<lambda>s. if s = ''{}'' then Inr (JObject []) else Inl (Error ''JSONDecodeError'')),
           py_str = (\<lambda>v. []),
           llm = (\<lambda>prompt bound. Inl (Error ''no model''))\<rparr>"

definition st0 :: state where
  "st0 = \<lparr>out = [Ready], calls = [], logged = []\<rparr>"

definition net_ok :: net where
  "net_ok = \<lparr>request = Inr [Inr ''ab'', Inr ''c'', Inr []], open_error = None,
             write_error = (\<lambda>k. None), remove_error = None\<rparr>"

definition net_bad :: net where
  "net_bad = \<lparr>request = Inr [Inr ''ab'', Inl (Error ''reset'')], open_error = None,
              write_error = (\<lambda>k. None), remove_error = None\<rparr>"

section \<open>Facts about the catalog scan\<close>

lemma first_with_tag_None:
  "first_with_tag tag names = None \<longleftrightarrow> (\<forall>n \<in> set names. \<not> sublist tag n)"
  by (induction names) auto

lemma first_with_tag_Some:
  assumes "names = ns1 @ name # ns2" "sublist tag name" "\<forall>n \<in> set ns1. \<not> sublist tag n"
  shows "first_with_tag tag names = Some name"
  using assms by (induction ns1 arbitrary: names) auto

lemma first_with_tag_hit:
  "first_with_tag tag names = Some n \<Longrightarrow> n \<in> set names \<and> sublist tag n"
  by (induction names) (auto split: if_splits)

lemma scan_tags_None:
  "scan_tags tags ggufs = None \<longleftrightarrow> (\<forall>t \<in> set tags. \<forall>n \<in> set ggufs. \<not> sublist t n)"
  by (induction tags)
    (auto simp: first_with_tag_None split: option.splits dest: first_with_tag_hit)

lemma scan_tags_Some:
  assumes "tags = ts1 @ tag # ts2"
    and "\<forall>t \<in> set ts1. \<forall>n \<in> set ggufs. \<not> sublist t n"
    and "first_with_tag tag ggufs = Some name"
  shows "scan_tags tags ggufs = Some name"
  using assms
proof (induction ts1 arbitrary: tags)
  case Nil
  then show ?case by simp
next
  case (Cons t ts1)
  from Cons.prems have "first_with_tag t ggufs = None"
    by (simp add: first_with_tag_None)
  with Cons show ?case by simp
qed

section \<open>Facts about the protocol loop\<close>

lemma fst_process_one: "fst (process_one e n_ctx text cs) = fst (process_one e n_ctx text [])"
  by (simp add: process_one_def Let_def split: sum.splits)

lemma fst_try_body: "fst (try_body e n_ctx line cs) = fst (try_body e n_ctx line [])"
  using fst_process_one [of e n_ctx _ cs]
  by (simp add: try_body_def split: sum.splits)

lemma out_handle_line: "out (handle_line e n_ctx line st) = out st @ [reply e n_ctx line]"
proof -
  obtain r cs where t: "try_body e n_ctx line (calls st) = (r, cs)"
    by (cases "try_body e n_ctx line (calls st)")
  then have "fst (try_body e n_ctx line []) = r"
    using fst_try_body [of e n_ctx line "calls st"] by simp
  with t show ?thesis
    by (cases r) (simp_all add: handle_line_def reply_def)
qed

lemma out_main_loop:
  "out (main_loop e n_ctx lines st) =
     out st @ map (\<lambda>raw. reply e n_ctx (strip raw)) (filter (\<lambda>raw. strip raw \<noteq> []) lines)"
  by (induction lines arbitrary: st) (simp_all add: Let_def out_handle_line)

section \<open>Facts about the download\<close>

lemma stream_loop_content:
  "fst (stream_loop werr reads content k) = None \<Longrightarrow>
   snd (stream_loop werr reads content k) = content @ streamed reads"
proof (induction werr reads content k rule: stream_loop.induct)
  case (1 werr content k)
  then show ?case by (simp add: streamed_def)
next
  case (2 werr err reads content k)
  then show ?case by simp
next
  case (3 werr chunk reads content k)
  then show ?case
    by (cases "werr k") (auto simp: streamed_def split: if_splits)
qed

lemma download_failed_result:
  "fst (download_failed n destination exc fs) =
     Inl (RuntimeError (''Failed to download model: '' @ message exc) exc)"
  by (simp add: download_failed_def)

lemma download_failed_removed:
  "remove_error n = None \<Longrightarrow> snd (download_failed n destination exc fs) destination = None"
  by (auto simp: download_failed_def)

section \<open>Facts about the spacing passes on lines\<close>

lemma is_blank_iff: "is_blank l \<longleftrightarrow> (\<forall>c \<in> set l. is_space c)"
proof -
  have "is_blank l \<longleftrightarrow> (\<forall>c \<in> set (dropWhile is_space l). is_space c)"
    by (simp add: is_blank_def strip_def rstrip_def lstrip_def dropWhile_eq_Nil_conv)
  also have "\<dots> \<longleftrightarrow> dropWhile is_space l = []"
    by (metis dropWhile_eq_Nil_conv dropWhile_idem)
  finally show ?thesis by (simp add: dropWhile_eq_Nil_conv)
qed

lemma pipe_not_space: "\<not> is_space (CHR ''|'')"
  by (simp add: is_space_def)

lemma table_not_blank: "is_table_line l \<Longrightarrow> \<not> is_blank l"
proof
  assume t: "is_table_line l" and b: "is_blank l"
  from b have "dropWhile is_space l = []"
    by (simp add: is_blank_iff dropWhile_eq_Nil_conv)
  with t show False
    by (simp add: is_table_line_def lstrip_def Let_def)
qed

lemma spec_nontable_head:
  "lines = [] \<or> \<not> is_table_line (hd lines) \<Longrightarrow>
   table_spacing_spec prev lines = table_spacing_spec prev' lines"
  by (cases lines) (auto simp: blank_before_run_def)

lemma spec_run:
  assumes "\<forall>l \<in> set run. is_table_line l" "run \<noteq> []" "rest = [] \<or> \<not> is_table_line (hd rest)"
  shows "table_spacing_spec prev (run @ rest) =
     (if blank_before_run prev (hd run) then [[]] else []) @ run @
     (if rest \<noteq> [] \<and> \<not> is_blank (hd rest) then [[]] else []) @
     table_spacing_spec (Some (last run)) rest"
  using assms
proof (induction run arbitrary: prev)
  case Nil
  then show ?case by simp
next
  case (Cons l run)
  show ?case
  proof (cases "run = []")
    case True
    with Cons.prems show ?thesis
      by (cases rest) (auto simp: blank_after_run_def)
  next
    case False
    then obtain m run' where r: "run = m # run'" by (cases run) auto
    with Cons.prems have m: "is_table_line m" "is_table_line l" by auto
    have nb: "\<not> blank_before_run (Some l) (hd run)"
      using m r by (simp add: blank_before_run_def)
    have na: "\<not> blank_after_run l (run @ rest)"
      using m r by (simp add: blank_after_run_def)
    from Cons.IH [of "Some l"] Cons.prems False nb na
    show ?thesis by simp
  qed
qed

lemma table_loop_spec_gen:
  "lines = [] \<or> \<not> is_table_line (hd lines) \<or> (result = [] \<and> prev = None) \<or>
     (result \<noteq> [] \<and> prev = Some (last result) \<and> \<not> is_table_line (last result)) \<Longrightarrow>
   table_loop result lines = result @ table_spacing_spec prev lines"
proof (induction result lines arbitrary: prev rule: table_loop.induct)
  case (1 result)
  then show ?case by simp
next
  case (2 result line lines)
  show ?case
  proof (cases "is_table_line line")
    case False
    have "table_loop (result @ [line]) lines = (result @ [line]) @ table_spacing_spec (Some line) lines"
      using False by (intro "2.IH"(2)) auto
    with False show ?thesis by (simp add: blank_before_run_def blank_after_run_def)
  next
    case True
    define run where "run = takeWhile is_table_line (line # lines)"
    define rest where "rest = dropWhile is_table_line (line # lines)"
    define r1 where "r1 = (if result \<noteq> [] \<and> \<not> is_blank (last result) then result @ [[]] else result)"
    define r3 where "r3 = (if rest \<noteq> [] \<and> \<not> is_blank (hd rest) then (r1 @ run) @ [[]] else r1 @ run)"
    have split: "line # lines = run @ rest"
      unfolding run_def rest_def by (rule takeWhile_dropWhile_id [symmetric])
    have run: "\<forall>l \<in> set run. is_table_line l" "run \<noteq> []" "hd run = line"
      using True by (auto simp: run_def dest: set_takeWhileD)
    have rest: "rest = [] \<or> \<not> is_table_line (hd rest)"
      unfolding rest_def by (metis hd_dropWhile)
    have loop: "table_loop result (line # lines) = table_loop r3 rest"
      unfolding r3_def r1_def run_def rest_def
      by (subst table_loop.simps) (simp only: True if_True Let_def)
    have ih: "table_loop r3 rest = r3 @ table_spacing_spec (Some (last run)) rest"
      unfolding r3_def r1_def run_def rest_def
      apply (rule "2.IH"(1) [OF True refl refl refl refl refl])
      using rest unfolding rest_def by blast
    have before: "blank_before_run prev line \<longleftrightarrow> result \<noteq> [] \<and> \<not> is_blank (last result)"
      using "2.prems" True table_not_blank
      by (auto simp: blank_before_run_def)
    have sr: "table_spacing_spec prev (run @ rest) =
       (if blank_before_run prev (hd run) then [[]] else []) @ run @
       (if rest \<noteq> [] \<and> \<not> is_blank (hd rest) then [[]] else []) @
       table_spacing_spec (Some (last run)) rest"
      by (rule spec_run [OF run(1,2) rest])
    have "table_loop result (line # lines) = r3 @ table_spacing_spec (Some (last run)) rest"
      by (simp only: loop ih)
    also have "\<dots> = result @ table_spacing_spec prev (run @ rest)"
      unfolding sr run(3) before r3_def r1_def by simp
    finally show ?thesis by (simp only: split)
  qed
qed

lemma table_loop_eq_spec: "table_loop [] lines = table_spacing_spec None lines"
  using table_loop_spec_gen [of lines "[]" None] by simp


lemma option_not_blank: "is_option l \<Longrightarrow> \<not> is_blank l"
proof
  assume t: "is_option l" and b: "is_blank l"
  from b have "dropWhile is_space l = []"
    by (simp add: is_blank_iff dropWhile_eq_Nil_conv)
  with t show False
    by (simp add: is_option_def)
qed

lemma blank_Nil: "is_blank []"
  by (simp add: is_blank_iff)

lemma not_option_Nil: "\<not> is_option []"
  by (simp add: is_option_def)

lemma option_loop_spec_gen:
  "(result = [] \<and> prev = None \<and> \<not> inb) \<or>
   (result \<noteq> [] \<and> prev = Some (last result) \<and>
      (\<not> is_blank (last result) \<longrightarrow> inb = is_option (last result))) \<Longrightarrow>
   option_loop result inb lines = result @ option_spacing_spec prev lines"
proof (induction lines arbitrary: result inb prev)
  case Nil
  then show ?case by simp
next
  case (Cons line lines)
  show ?case
  proof (cases "is_option line")
    case True
    have before: "blank_before_option prev line \<longleftrightarrow>
        \<not> inb \<and> result \<noteq> [] \<and> \<not> is_blank (last result)"
      using Cons.prems True by (auto simp: blank_before_option_def)
    define r where "r = (if \<not> inb \<and> result \<noteq> [] \<and> \<not> is_blank (last result)
            then result @ [[]] else result) @ [line]"
    have "option_loop r True lines = r @ option_spacing_spec (Some line) lines"
      by (rule Cons.IH) (simp add: r_def True)
    then show ?thesis
      using True before by (simp add: r_def)
  next
    case False
    have "option_loop (result @ [line]) (if \<not> is_blank line then False else inb) lines
        = (result @ [line]) @ option_spacing_spec (Some line) lines"
      by (rule Cons.IH) (simp add: False)
    then show ?thesis
      using False by (simp add: blank_before_option_def)
  qed
qed

lemma option_loop_eq_spec: "option_loop [] False lines = option_spacing_spec None lines"
  using option_loop_spec_gen [of "[]" None False lines] by simp

lemma option_spec_fixed:
  "successively option_ok lines \<Longrightarrow>
   (case prev of None \<Rightarrow> True | Some p \<Rightarrow> lines = [] \<or> option_ok p (hd lines)) \<Longrightarrow>
   option_spacing_spec prev lines = lines"
proof (induction lines arbitrary: prev)
  case Nil
  then show ?case by simp
next
  case (Cons l ls)
  have "option_spacing_spec (Some l) ls = ls"
    using Cons.prems(1) by (intro Cons.IH) (cases ls; simp)+
  moreover have "\<not> blank_before_option prev l"
    using Cons.prems(2) by (auto simp: blank_before_option_def option_ok_def split: option.splits)
  ultimately show ?case by simp
qed

lemma option_spec_spaced_gen:
  "successively option_ok (option_spacing_spec prev lines) \<and>
   (case prev of None \<Rightarrow> True
    | Some p \<Rightarrow> lines = [] \<or> option_ok p (hd (option_spacing_spec prev lines)))"
proof (induction lines arbitrary: prev)
  case Nil
  then show ?case by (simp split: option.splits)
next
  case (Cons l ls)
  from Cons.IH [of "Some l"]
  have ih: "successively option_ok (option_spacing_spec (Some l) ls)"
    and hd: "ls = [] \<or> option_ok l (hd (option_spacing_spec (Some l) ls))" by simp_all
  have tail: "successively option_ok (l # option_spacing_spec (Some l) ls)"
    using ih hd by (cases ls) (auto simp: successively_Cons)
  show ?case
    using tail
    by (auto simp: successively_Cons option_ok_def blank_before_option_def blank_Nil
        not_option_Nil split: option.splits)
qed

lemma option_spec_idem:
  "option_spacing_spec None (option_spacing_spec None lines) = option_spacing_spec None lines"
  using option_spec_spaced_gen [of None lines]
  by (intro option_spec_fixed) simp_all


section \<open>Facts about stripping\<close>

lemma rstrip_Nil [simp]: "rstrip [] = []"
  by (simp add: rstrip_def)

lemma rstrip_snoc:
  "rstrip (s @ [c]) = (if is_space c then rstrip s else s @ [c])"
  by (simp add: rstrip_def)

lemma rstrip_last: "rstrip s = [] \<or> \<not> is_space (last (rstrip s))"
  by (induction s rule: rev_induct) (auto simp: rstrip_snoc)

lemma rstrip_fixed: "s = [] \<or> \<not> is_space (last s) \<Longrightarrow> rstrip s = s"
  by (cases s rule: rev_cases) (auto simp: rstrip_snoc)

lemma rstrip_idem [simp]: "rstrip (rstrip s) = rstrip s"
  using rstrip_last [of s] by (intro rstrip_fixed)

lemma rstrip_eq_Nil: "rstrip s = [] \<longleftrightarrow> (\<forall>c \<in> set s. is_space c)"
  by (simp add: rstrip_def dropWhile_eq_Nil_conv)

lemma rstrip_blank: "is_blank s \<Longrightarrow> rstrip s = []"
  by (simp add: rstrip_eq_Nil is_blank_iff)

lemma rstrip_append:
  "rstrip (a @ b) = (if is_blank b then rstrip a else a @ rstrip b)"
  by (induction b rule: rev_induct)
    (auto simp: rstrip_snoc is_blank_iff simp flip: append_assoc)

lemma set_rstrip: "set (rstrip s) \<subseteq> set s"
  unfolding rstrip_def by (metis set_dropWhileD set_rev subsetI)

lemma rstrip_single: "rstrip [c] = (if is_space c then [] else [c])"
  using rstrip_snoc [of "[]" c] by simp

lemma rstrip_Cons:
  "rstrip (c # cs) =
     (if is_blank cs then (if is_space c then [] else [c]) else c # rstrip cs)"
  using rstrip_append [of "[c]" cs] by (simp add: rstrip_single)

lemma hd_rstrip: "s \<noteq> [] \<Longrightarrow> \<not> is_space (hd s) \<Longrightarrow> rstrip s \<noteq> [] \<and> hd (rstrip s) = hd s"
  by (cases s) (auto simp: rstrip_Cons)

lemma lstrip_fixed: "s = [] \<or> \<not> is_space (hd s) \<Longrightarrow> lstrip s = s"
  by (cases s) (auto simp: lstrip_def)

lemma strip_fixed:
  "s = [] \<or> (\<not> is_space (hd s) \<and> \<not> is_space (last s)) \<Longrightarrow> strip s = s"
  by (auto simp: strip_def lstrip_fixed rstrip_fixed)

lemma lstrip_hd: "lstrip s = [] \<or> \<not> is_space (hd (lstrip s))"
  unfolding lstrip_def by (metis hd_dropWhile)

lemma strip_ends: "strip s = [] \<or> (\<not> is_space (hd (strip s)) \<and> \<not> is_space (last (strip s)))"
proof (cases "lstrip s = []")
  case True
  then show ?thesis by (simp add: strip_def)
next
  case False
  with lstrip_hd [of s] have "\<not> is_space (hd (lstrip s))" by simp
  with False hd_rstrip [of "lstrip s"] rstrip_last [of "lstrip s"]
  show ?thesis by (auto simp: strip_def)
qed

lemma strip_idem [simp]: "strip (strip s) = strip s"
  using strip_ends [of s] by (intro strip_fixed) auto

lemma set_strip: "set (strip s) \<subseteq> set s"
  unfolding strip_def lstrip_def using set_rstrip set_dropWhileD by fastforce

lemma strip_eq_Nil: "strip s = [] \<longleftrightarrow> is_blank s"
  by (simp add: is_blank_def)

lemma lstrip_Cons: "lstrip (c # cs) = (if is_space c then lstrip cs else c # cs)"
  by (simp add: lstrip_def)

lemma lstrip_blank: "is_blank s \<Longrightarrow> lstrip s = []"
  by (simp add: lstrip_def is_blank_iff)

lemma lstrip_Nil [simp]: "lstrip [] = []"
  by (simp add: lstrip_def)

lemma blank_lstrip: "is_blank (lstrip s) \<longleftrightarrow> is_blank s"
  by (induction s) (auto simp: lstrip_Cons is_blank_iff)

lemma lstrip_rstrip: "lstrip (rstrip s) = rstrip (lstrip s)"
proof (induction s)
  case Nil
  then show ?case by (simp add: lstrip_def)
next
  case (Cons c cs)
  show ?case
  proof (cases "is_space c")
    case True
    with Cons show ?thesis
      by (auto simp: rstrip_Cons lstrip_Cons lstrip_blank rstrip_blank blank_lstrip)
  next
    case False
    with hd_rstrip [of "c # cs"] have "lstrip (rstrip (c # cs)) = rstrip (c # cs)"
      by (intro lstrip_fixed) simp
    with False show ?thesis by (simp add: lstrip_Cons)
  qed
qed

lemma strip_rstrip [simp]: "strip (rstrip s) = strip s"
  by (simp add: strip_def lstrip_rstrip)

lemma strip_lstrip [simp]: "strip (lstrip s) = strip s"
  by (simp add: strip_def lstrip_def)

section \<open>Facts about lines\<close>

lemma linebreak_space: "is_linebreak c \<Longrightarrow> is_space c"
  by (auto simp: is_linebreak_def is_space_def)

lemma linebreak_LF [simp]: "is_linebreak LF"
  by (simp add: is_linebreak_def)

lemma linebreak_CR [simp]: "is_linebreak CR"
  by (simp add: is_linebreak_def)

lemma space_LF [simp]: "is_space LF"
  by (simp add: is_space_def)

lemma splitlines_from_Nil_iff: "splitlines_from cur s = [] \<longleftrightarrow> cur = [] \<and> s = []"
  by (induction cur s rule: splitlines_from.induct) auto

lemma splitlines_Nil_iff: "splitlines s = [] \<longleftrightarrow> s = []"
  by (simp add: splitlines_def splitlines_from_Nil_iff)

lemma splitlines_from_LF: "splitlines_from cur (LF # rest) = cur # splitlines_from [] rest"
  by (cases rest) simp_all

lemma splitlines_from_no_break:
  "no_break l \<Longrightarrow> splitlines_from cur (l @ rest) = splitlines_from (cur @ l) rest"
proof (induction l arbitrary: cur)
  case Nil
  then show ?case by simp
next
  case (Cons c l)
  then have c: "\<not> is_linebreak c" "c \<noteq> CR" and l: "no_break l"
    by (auto simp: no_break_def)
  show ?case
  proof (cases "l @ rest")
    case Nil
    with c show ?thesis by simp
  next
    case (Cons d ds)
    have "splitlines_from cur (c # l @ rest) = splitlines_from (cur @ [c]) (l @ rest)"
      using c by (simp add: Cons)
    with Cons.IH [OF l, of "cur @ [c]"] show ?thesis by simp
  qed
qed

lemma no_break_Nil [simp]: "no_break []"
  by (simp add: no_break_def)

lemma no_break_snoc: "no_break (l @ [c]) \<longleftrightarrow> no_break l \<and> \<not> is_linebreak c"
  by (auto simp: no_break_def)

lemma splitlines_from_lines:
  "no_break cur \<Longrightarrow> l \<in> set (splitlines_from cur s) \<Longrightarrow> no_break l"
proof (induction cur s rule: splitlines_from.induct)
  case (1 cur)
  then show ?case by (simp split: if_splits)
next
  case (2 cur c)
  then show ?case by (simp add: no_break_snoc split: if_splits)
next
  case (3 cur c d cs)
  show ?case
  proof (cases "c = CR \<and> d = LF")
    case True
    have "splitlines_from cur (c # d # cs) = cur # splitlines_from [] cs"
      by (simp only: splitlines_from.simps True if_True simp_thms)
    with "3.prems"(2) have "l = cur \<or> l \<in> set (splitlines_from [] cs)" by simp
    then show ?thesis
    proof
      assume "l = cur"
      with "3.prems"(1) show ?thesis by simp
    next
      assume "l \<in> set (splitlines_from [] cs)"
      then show ?thesis by (rule "3.IH"(1) [OF True no_break_Nil])
    qed
  next
    case False
    note nf = this
    show ?thesis
    proof (cases "is_linebreak c")
      case True
      have "splitlines_from cur (c # d # cs) = cur # splitlines_from [] (d # cs)"
        by (simp only: splitlines_from.simps nf True if_False if_True)
      with "3.prems"(2) have "l = cur \<or> l \<in> set (splitlines_from [] (d # cs))" by simp
      then show ?thesis
      proof
        assume "l = cur"
        with "3.prems"(1) show ?thesis by simp
      next
        assume "l \<in> set (splitlines_from [] (d # cs))"
        then show ?thesis by (rule "3.IH"(2) [OF nf True no_break_Nil])
      qed
    next
      case False
      have "splitlines_from cur (c # d # cs) = splitlines_from (cur @ [c]) (d # cs)"
        by (simp only: splitlines_from.simps nf False if_False)
      with "3.prems"(2) have m: "l \<in> set (splitlines_from (cur @ [c]) (d # cs))" by simp
      from False "3.prems"(1) have "no_break (cur @ [c])" by (simp add: no_break_snoc)
      then show ?thesis using m by (rule "3.IH"(3) [OF nf False])
    qed
  qed
qed

lemma splitlines_lines: "l \<in> set (splitlines s) \<Longrightarrow> no_break l"
  using splitlines_from_lines [of "[]" l s] by (simp add: splitlines_def)

lemma join_nl_Cons: "ls \<noteq> [] \<Longrightarrow> join_nl (l # ls) = l @ LF # join_nl ls"
  by (cases ls) simp_all

lemma join_nl_snoc: "join_nl (ls @ [l]) = (if ls = [] then l else join_nl ls @ LF # l)"
  by (induction ls rule: join_nl.induct) simp_all

lemma splitlines_join:
  "\<forall>l \<in> set ls. no_break l \<Longrightarrow>
   splitlines (join_nl ls) = (if ls \<noteq> [] \<and> last ls = [] then butlast ls else ls)"
proof (induction ls rule: join_nl.induct)
  case 1
  then show ?case by (simp add: splitlines_def)
next
  case (2 l)
  then have l: "no_break l" by simp
  have "splitlines_from [] l = splitlines_from l []"
    using splitlines_from_no_break [OF l, of "[]" "[]"] by simp
  then show ?case by (simp add: splitlines_def)
next
  case (3 l m ls)
  then have l: "no_break l" by simp
  have "splitlines (join_nl (l # m # ls)) = splitlines_from l (LF # join_nl (m # ls))"
    using splitlines_from_no_break [OF l, of "[]"] by (simp add: splitlines_def)
  also have "\<dots> = l # splitlines (join_nl (m # ls))"
    by (simp only: splitlines_from_LF splitlines_def)
  finally show ?case using 3 by simp
qed

lemma chop_LF_Cons: "cs \<noteq> [] \<Longrightarrow> chop_LF (c # cs) = c # chop_LF cs"
  by (simp add: chop_LF_def)

lemma chop_LF_single: "chop_LF [c] = (if c = LF then [] else [c])"
  by (simp add: chop_LF_def)

lemma lf_only_Cons: "lf_only (c # cs) \<longleftrightarrow> (is_linebreak c \<longrightarrow> c = LF) \<and> lf_only cs"
  by (simp add: lf_only_def)

lemma join_splitlines_from:
  "lf_only s \<Longrightarrow> join_nl (splitlines_from cur s) = cur @ chop_LF s"
proof (induction cur s rule: splitlines_from.induct)
  case (1 cur)
  then show ?case by (simp add: chop_LF_def)
next
  case (2 cur c)
  then have lb: "is_linebreak c \<longrightarrow> c = LF" by (simp add: lf_only_Cons)
  show ?case
  proof (cases "is_linebreak c")
    case True
    with lb have "c = LF" by simp
    then show ?thesis by (simp add: chop_LF_single)
  next
    case False
    then have "c \<noteq> LF" by auto
    with False show ?thesis by (simp add: chop_LF_single)
  qed
next
  case (3 cur c d cs)
  from "3.prems" have lb: "is_linebreak c \<longrightarrow> c = LF" and rest: "lf_only (d # cs)"
    by (simp_all add: lf_only_Cons)
  have nf: "\<not> (c = CR \<and> d = LF)"
  proof
    assume "c = CR \<and> d = LF"
    with lb show False by simp
  qed
  show ?case
  proof (cases "is_linebreak c")
    case True
    with lb have cl: "c = LF" by simp
    have ne: "splitlines_from [] (d # cs) \<noteq> []"
      by (simp add: splitlines_from_Nil_iff)
    have "splitlines_from cur (c # d # cs) = cur # splitlines_from [] (d # cs)"
      by (simp only: splitlines_from.simps nf True if_False if_True)
    then have "join_nl (splitlines_from cur (c # d # cs)) =
        cur @ LF # join_nl (splitlines_from [] (d # cs))"
      by (simp only: join_nl_Cons [OF ne])
    also have "join_nl (splitlines_from [] (d # cs)) = [] @ chop_LF (d # cs)"
      by (rule "3.IH"(2) [OF nf True rest])
    finally show ?thesis
      by (simp add: cl chop_LF_Cons)
  next
    case False
    have "splitlines_from cur (c # d # cs) = splitlines_from (cur @ [c]) (d # cs)"
      by (simp only: splitlines_from.simps nf False if_False)
    also have "join_nl \<dots> = (cur @ [c]) @ chop_LF (d # cs)"
      by (rule "3.IH"(3) [OF nf False rest])
    finally show ?thesis
      by (simp add: chop_LF_Cons)
  qed
qed

lemma join_splitlines:
  "lf_only s \<Longrightarrow> s = [] \<or> last s \<noteq> LF \<Longrightarrow> join_nl (splitlines s) = s"
  using join_splitlines_from [of s "[]"] by (auto simp: splitlines_def chop_LF_def)

lemma lf_only_join: "\<forall>l \<in> set ls. no_break l \<Longrightarrow> lf_only (join_nl ls)"
  by (induction ls rule: join_nl.induct) (auto simp: lf_only_def no_break_def)

lemma lf_only_subset: "lf_only s \<Longrightarrow> set t \<subseteq> set s \<Longrightarrow> lf_only t"
  by (auto simp: lf_only_def)

section \<open>Trimming the lines\<close>

lemma trim_lines_Nil [simp]: "trim_lines [] = []"
  by (simp add: trim_lines_def)

lemma trim_lines_snoc:
  "trim_lines (ls @ [l]) = (if is_blank l then trim_lines ls else ls @ [rstrip l])"
  by (simp add: trim_lines_def Let_def)

lemma trim_lines_single: "trim_lines [l] = (if is_blank l then [] else [rstrip l])"
  using trim_lines_snoc [of "[]" l] by simp

lemma is_blank_Cons: "is_blank (c # cs) \<longleftrightarrow> is_space c \<and> is_blank cs"
  by (simp add: is_blank_iff)

lemma rstrip_join: "rstrip (join_nl ls) = join_nl (trim_lines ls)"
proof (induction ls rule: rev_induct)
  case Nil
  then show ?case by simp
next
  case (snoc l ls)
  show ?case
  proof (cases "ls = []")
    case True
    then show ?thesis
      by (simp add: trim_lines_single rstrip_blank)
  next
    case False
    have "rstrip (join_nl (ls @ [l])) = rstrip (join_nl ls @ (LF # l))"
      using False by (simp add: join_nl_snoc)
    also have "\<dots> = (if is_blank l then rstrip (join_nl ls) else join_nl ls @ LF # rstrip l)"
      by (simp add: rstrip_append is_blank_Cons rstrip_Cons)
    also have "\<dots> = join_nl (trim_lines (ls @ [l]))"
      using False snoc by (simp add: trim_lines_snoc join_nl_snoc)
    finally show ?thesis .
  qed
qed

lemma trim_lines_last: "trim_lines ls = [] \<or> \<not> is_blank (last (trim_lines ls))"
proof (induction ls rule: rev_induct)
  case Nil
  then show ?case by simp
next
  case (snoc l ls)
  then show ?case
    by (auto simp: trim_lines_snoc is_blank_iff rstrip_eq_Nil[symmetric] is_blank_def)
qed

lemma trim_lines_no_break:
  "\<forall>l \<in> set ls. no_break l \<Longrightarrow> \<forall>l \<in> set (trim_lines ls). no_break l"
proof (induction ls rule: rev_induct)
  case Nil
  then show ?case by simp
next
  case (snoc l ls)
  then show ?case
    using set_rstrip [of l] by (auto simp: trim_lines_snoc no_break_def)
qed

lemma trim_lines_successively:
  assumes "\<And>a b. R a b \<Longrightarrow> R a (rstrip b)"
  shows "successively R ls \<Longrightarrow> successively R (trim_lines ls)"
proof (induction ls rule: rev_induct)
  case Nil
  then show ?case by simp
next
  case (snoc l ls)
  then show ?case
    using assms by (auto simp: trim_lines_snoc successively_append_iff)
qed

lemma splitlines_rstrip_join:
  "\<forall>l \<in> set ls. no_break l \<Longrightarrow> splitlines (rstrip (join_nl ls)) = trim_lines ls"
proof -
  assume a: "\<forall>l \<in> set ls. no_break l"
  have "last (trim_lines ls) \<noteq> []" if "trim_lines ls \<noteq> []"
    using trim_lines_last [of ls] that blank_Nil by auto
  then show ?thesis
    using splitlines_join [OF trim_lines_no_break [OF a]]
    by (auto simp: rstrip_join)
qed

section \<open>The spacing passes on a text\<close>

lemma rstrip_decomp: "\<exists>w. s = rstrip s @ w \<and> (\<forall>c \<in> set w. is_space c)"
proof -
  have "rev s = takeWhile is_space (rev s) @ dropWhile is_space (rev s)" by simp
  then have "s = rev (dropWhile is_space (rev s)) @ rev (takeWhile is_space (rev s))"
    by (metis rev_append rev_rev_ident)
  moreover have "\<forall>c \<in> set (rev (takeWhile is_space (rev s))). is_space c"
    by (auto dest: set_takeWhileD)
  ultimately show ?thesis unfolding rstrip_def by blast
qed

lemma punct_space_append: "punct_space r \<Longrightarrow> punct_space (r @ q)"
  by (auto simp: punct_space_def split: list.splits)

lemma option_head_iff:
  "(case d of
      [] \<Rightarrow> False
    | c # r \<Rightarrow>
        (c \<in> set ''ABCDEFGH'' \<and> punct_space r) \<or>
        (is_digit c \<and>
           (punct_space r \<or> (case r of d # r' \<Rightarrow> is_digit d \<and> punct_space r' | [] \<Rightarrow> False)))) \<longleftrightarrow>
   (\<exists>c r. d = c # r \<and>
      ((c \<in> set ''ABCDEFGH'' \<and> punct_space r) \<or>
       (is_digit c \<and> (punct_space r \<or> (\<exists>d r'. r = d # r' \<and> is_digit d \<and> punct_space r')))))"
proof (cases d)
  case Nil
  then show ?thesis by simp
next
  case (Cons c r)
  then show ?thesis by (cases r) simp_all
qed

lemma is_option_iff:
  "is_option line \<longleftrightarrow>
     (\<exists>c r. dropWhile is_space line = c # r \<and>
        ((c \<in> set ''ABCDEFGH'' \<and> punct_space r) \<or>
         (is_digit c \<and> (punct_space r \<or> (\<exists>d r'. r = d # r' \<and> is_digit d \<and> punct_space r')))))"
  unfolding is_option_def by (rule option_head_iff)

lemma is_option_append: "is_option p \<Longrightarrow> is_option (p @ q)"
proof -
  assume "is_option p"
  then obtain c r where d: "dropWhile is_space p = c # r"
    and o: "(c \<in> set ''ABCDEFGH'' \<and> punct_space r) \<or>
       (is_digit c \<and> (punct_space r \<or> (\<exists>d r'. r = d # r' \<and> is_digit d \<and> punct_space r')))"
    unfolding is_option_iff by blast
  from d obtain x where "x \<in> set p" "\<not> is_space x"
    by (metis dropWhile_eq_Nil_conv list.distinct(1))
  then have "dropWhile is_space (p @ q) = dropWhile is_space p @ q"
    by (rule dropWhile_append1)
  with d have dq: "dropWhile is_space (p @ q) = c # (r @ q)" by simp
  from o have "(c \<in> set ''ABCDEFGH'' \<and> punct_space (r @ q)) \<or>
       (is_digit c \<and> (punct_space (r @ q) \<or>
          (\<exists>d r'. r @ q = d # r' \<and> is_digit d \<and> punct_space r')))"
    using punct_space_append by fastforce
  with dq show ?thesis unfolding is_option_iff by blast
qed

lemma is_option_rstrip: "is_option (rstrip b) \<Longrightarrow> is_option b"
  using rstrip_decomp [of b] is_option_append [of "rstrip b"] by metis

lemma is_blank_rstrip [simp]: "is_blank (rstrip b) \<longleftrightarrow> is_blank b"
  by (simp add: is_blank_def)

lemma lstrip_append: "\<not> is_blank p \<Longrightarrow> lstrip (p @ q) = lstrip p @ q"
  by (auto simp: lstrip_def is_blank_iff dropWhile_append1)

lemma count_space_free:
  "\<forall>c \<in> set w. is_space c \<Longrightarrow> count_list (p @ w) (CHR ''|'') = count_list p (CHR ''|'')"
  by (induction w rule: rev_induct) (auto simp: pipe_not_space simp flip: append_assoc)

lemma is_table_line_rstrip [simp]: "is_table_line (rstrip b) \<longleftrightarrow> is_table_line b"
proof (cases "is_blank b")
  case True
  then have "rstrip b = []" by (rule rstrip_blank)
  moreover from True have "\<not> is_table_line b" using table_not_blank by blast
  ultimately show ?thesis by (simp add: is_table_line_def lstrip_def)
next
  case False
  obtain w where w: "b = rstrip b @ w" "\<forall>c \<in> set w. is_space c"
    using rstrip_decomp by blast
  from False have nb: "\<not> is_blank (rstrip b)" by simp
  then have ne: "lstrip (rstrip b) \<noteq> []"
    using blank_lstrip [of "rstrip b"] blank_Nil by auto
  have l: "lstrip b = lstrip (rstrip b) @ w"
    using lstrip_append [OF nb, of w] w(1) by simp
  have p: "prefix ''|'' (lstrip b) \<longleftrightarrow> prefix ''|'' (lstrip (rstrip b))"
    unfolding l using ne by (cases "lstrip (rstrip b)") auto
  have c: "count_list (lstrip b) (CHR ''|'') = count_list (lstrip (rstrip b)) (CHR ''|'')"
    unfolding l by (rule count_space_free [OF w(2)])
  show ?thesis
    by (simp add: is_table_line_def Let_def p c)
qed

lemma option_ok_rstrip: "option_ok a b \<Longrightarrow> option_ok a (rstrip b)"
  by (auto simp: option_ok_def dest: is_option_rstrip)

lemma table_ok_rstrip: "table_ok a b \<Longrightarrow> table_ok a (rstrip b)"
  by (simp add: table_ok_def)

lemma table_ok_Nil_right [simp]: "table_ok a []"
  using table_not_blank [of "[]"] by (auto simp: table_ok_def blank_Nil)

lemma table_ok_Nil_left [simp]: "table_ok [] b"
  using table_not_blank [of "[]"] by (auto simp: table_ok_def blank_Nil)

lemma option_spec_no_break:
  "\<forall>l \<in> set ls. no_break l \<Longrightarrow> \<forall>l \<in> set (option_spacing_spec prev ls). no_break l"
  by (induction ls arbitrary: prev) auto

lemma table_spec_no_break:
  "\<forall>l \<in> set ls. no_break l \<Longrightarrow> \<forall>l \<in> set (table_spacing_spec prev ls). no_break l"
  by (induction ls arbitrary: prev) auto

lemma table_spec_fixed:
  "successively table_ok ls \<Longrightarrow>
   (case prev of None \<Rightarrow> True | Some p \<Rightarrow> ls = [] \<or> table_ok p (hd ls)) \<Longrightarrow>
   table_spacing_spec prev ls = ls"
proof (induction ls arbitrary: prev)
  case Nil
  then show ?case by simp
next
  case (Cons l ls)
  have "table_spacing_spec (Some l) ls = ls"
    using Cons.prems(1) by (intro Cons.IH) (cases ls; simp)+
  moreover have "\<not> blank_before_run prev l"
    using Cons.prems(2) by (auto simp: blank_before_run_def table_ok_def split: option.splits)
  moreover have "\<not> blank_after_run l ls"
    using Cons.prems(1) by (cases ls) (auto simp: blank_after_run_def table_ok_def)
  ultimately show ?case by simp
qed

lemma table_spec_spaced_gen:
  "successively table_ok (table_spacing_spec prev ls) \<and>
   (\<forall>p. prev = Some p \<longrightarrow> ls \<noteq> [] \<longrightarrow> \<not> blank_after_run p ls \<longrightarrow>
      table_ok p (hd (table_spacing_spec prev ls)))"
proof (induction ls arbitrary: prev)
  case Nil
  then show ?case by simp
next
  case (Cons l ls)
  let ?T = "table_spacing_spec (Some l) ls"
  from Cons.IH [of "Some l"]
  have ih: "successively table_ok ?T"
    and hd: "ls \<noteq> [] \<Longrightarrow> \<not> blank_after_run l ls \<Longrightarrow> table_ok l (hd ?T)" by simp_all
  have T_ne: "ls \<noteq> [] \<Longrightarrow> ?T \<noteq> []" by (cases ls) simp_all
  have tail: "successively table_ok
      (l # (if blank_after_run l ls then [[]] else []) @ ?T)"
  proof (cases "ls = []")
    case True
    then show ?thesis by (simp add: blank_after_run_def)
  next
    case False
    with T_ne obtain t ts where t: "?T = t # ts" by (cases ?T) auto
    show ?thesis
    proof (cases "blank_after_run l ls")
      case True
      with ih t show ?thesis by (simp add: successively_Cons)
    next
      case False
      with hd \<open>ls \<noteq> []\<close> t have "table_ok l t" by simp
      with ih t False show ?thesis by (simp add: successively_Cons)
    qed
  qed
  have first: "\<forall>p. prev = Some p \<longrightarrow> \<not> blank_after_run p (l # ls) \<longrightarrow>
      \<not> blank_before_run prev l \<longrightarrow> table_ok p l"
    by (auto simp: blank_after_run_def blank_before_run_def table_ok_def)
  show ?case
  proof (cases "blank_before_run prev l")
    case True
    then have eq: "table_spacing_spec prev (l # ls) =
        [] # l # (if blank_after_run l ls then [[]] else []) @ ?T" by simp
    have "successively table_ok ([] # l # (if blank_after_run l ls then [[]] else []) @ ?T)"
      using tail by (simp only: successively_Cons table_ok_Nil_left) simp
    then show ?thesis unfolding eq by simp
  next
    case False
    then have eq: "table_spacing_spec prev (l # ls) =
        l # (if blank_after_run l ls then [[]] else []) @ ?T" by simp
    have "successively table_ok (l # (if blank_after_run l ls then [[]] else []) @ ?T)"
      by (rule tail)
    moreover have "\<forall>p. prev = Some p \<longrightarrow> \<not> blank_after_run p (l # ls) \<longrightarrow> table_ok p l"
      using first False by blast
    ultimately show ?thesis unfolding eq by simp
  qed
qed

lemma table_spec_spaced: "successively table_ok (table_spacing_spec None ls)"
  using table_spec_spaced_gen [of None ls] by simp

lemma option_spec_spaced: "successively option_ok (option_spacing_spec None ls)"
  using option_spec_spaced_gen [of None ls] by simp

lemma option_spec_keeps_tables_gen:
  "successively table_ok (x # ls) \<Longrightarrow> successively table_ok (x # option_spacing_spec (Some x) ls)"
proof (induction ls arbitrary: x)
  case Nil
  then show ?case by simp
next
  case (Cons l ls)
  then have "successively table_ok (l # option_spacing_spec (Some l) ls)" and "table_ok x l"
    by (simp_all add: successively_Cons)
  then show ?case by (simp add: successively_Cons)
qed

lemma option_spec_keeps_tables:
  "successively table_ok ls \<Longrightarrow> successively table_ok (option_spacing_spec None ls)"
  using option_spec_keeps_tables_gen by (cases ls) (simp_all add: blank_before_option_def)

lemma add_option_spacing_eq:
  "add_option_spacing t = rstrip (join_nl (option_spacing_spec None (splitlines t)))"
proof (cases "t = []")
  case True
  then show ?thesis by (simp add: add_option_spacing_def splitlines_def)
next
  case False
  then have "splitlines t \<noteq> []" by (simp add: splitlines_Nil_iff)
  then show ?thesis by (simp add: add_option_spacing_def Let_def option_loop_eq_spec)
qed

lemma add_table_spacing_eq:
  "add_table_spacing t = rstrip (join_nl (table_spacing_spec None (splitlines t)))"
proof (cases "t = []")
  case True
  then show ?thesis by (simp add: add_table_spacing_def splitlines_def)
next
  case False
  then have "splitlines t \<noteq> []" by (simp add: splitlines_Nil_iff)
  then show ?thesis by (simp add: add_table_spacing_def Let_def table_loop_eq_spec)
qed

lemma splitlines_add_option_spacing:
  "splitlines (add_option_spacing t) = trim_lines (option_spacing_spec None (splitlines t))"
  unfolding add_option_spacing_eq
  by (intro splitlines_rstrip_join option_spec_no_break ballI splitlines_lines)

lemma splitlines_add_table_spacing:
  "splitlines (add_table_spacing t) = trim_lines (table_spacing_spec None (splitlines t))"
  unfolding add_table_spacing_eq
  by (intro splitlines_rstrip_join table_spec_no_break ballI splitlines_lines)

lemma add_option_spacing_idem:
  "add_option_spacing (add_option_spacing t) = add_option_spacing t"
proof -
  let ?K = "trim_lines (option_spacing_spec None (splitlines t))"
  have "successively option_ok ?K"
    by (intro trim_lines_successively option_ok_rstrip option_spec_spaced)
  then have "option_spacing_spec None ?K = ?K"
    by (intro option_spec_fixed) simp_all
  then have "add_option_spacing (add_option_spacing t) = rstrip (join_nl ?K)"
    by (simp add: add_option_spacing_eq [of "add_option_spacing t"] splitlines_add_option_spacing)
  also have "\<dots> = add_option_spacing t"
    by (simp add: add_option_spacing_eq [of t] rstrip_join [symmetric])
  finally show ?thesis .
qed

section \<open>Facts about searching and deleting\<close>

lemma prefix_sep:
  "sep \<notin> set m \<Longrightarrow> prefix m (a @ sep # b) \<longleftrightarrow> prefix m a"
proof
  assume s: "sep \<notin> set m" and p: "prefix m (a @ sep # b)"
  then consider "prefix m a" | m' where "m = a @ m'" "prefix m' (sep # b)"
    by (auto simp: prefix_append)
  then show "prefix m a"
  proof cases
    case 1
    then show ?thesis .
  next
    case 2
    with s have "m' = []" by (cases m') auto
    with 2 show ?thesis by simp
  qed
next
  assume "prefix m a"
  then show "prefix m (a @ sep # b)" by (simp add: prefix_append)
qed

lemma sublist_sep:
  assumes "sep \<notin> set m" "m \<noteq> []"
  shows "sublist m (a @ sep # b) \<longleftrightarrow> sublist m a \<or> sublist m b"
proof (induction a)
  case Nil
  have "\<not> prefix m (sep # b)" using assms by (cases m) auto
  then show ?case using assms(2) by (simp add: sublist_Cons_right)
next
  case (Cons c a)
  have "prefix m (c # a @ sep # b) \<longleftrightarrow> prefix m (c # a)"
    using prefix_sep [OF assms(1), of "c # a" b] by simp
  with Cons show ?case by (auto simp: sublist_Cons_right)
qed

lemma str_remove_absent: "\<not> sublist m s \<Longrightarrow> str_remove m s = s"
proof (induction s)
  case Nil
  then show ?case by simp
next
  case (Cons c s)
  then have "\<not> prefix m (c # s)" and "\<not> sublist m s"
    by (auto simp: sublist_Cons_right)
  with Cons.IH show ?case by simp
qed

lemma str_remove_sep:
  assumes "sep \<notin> set m" "\<not> sublist m a"
  shows "str_remove m (a @ sep # b) = a @ sep # str_remove m b"
  using assms(2)
proof (induction a)
  case Nil
  have "\<not> prefix m (sep # b) \<or> m = []" using assms(1) by (cases m) auto
  then show ?case by auto
next
  case (Cons c a)
  then have np: "\<not> prefix m (c # a)" and ns: "\<not> sublist m a"
    by (auto simp: sublist_Cons_right)
  have "\<not> prefix m (c # a @ sep # b)"
    using prefix_sep [OF assms(1), of "c # a" b] np by simp
  with Cons.IH [OF ns] show ?case by simp
qed

lemma rfind_sub_None: "rfind_sub s m = None \<longleftrightarrow> \<not> sublist m s"
proof (induction s)
  case Nil
  then show ?case by auto
next
  case (Cons c s)
  then show ?case
    by (auto simp: sublist_Cons_right split: option.splits)
qed

lemma rfind_sub_first:
  "prefix m (c # cs) \<Longrightarrow> \<not> sublist m cs \<Longrightarrow> rfind_sub (c # cs) m = Some 0"
  using rfind_sub_None [of cs m] by simp

lemma rsplit1_two: "sublist sep s \<Longrightarrow> \<exists>h t. rsplit1 s sep = [h, t]"
  using rfind_sub_None [of s sep] by (auto simp: rsplit1_def split: option.splits)

lemma sublist_suffix: "suffix t s \<Longrightarrow> sublist m t \<Longrightarrow> sublist m s"
proof -
  assume "suffix t s" and "sublist m t"
  then obtain p a b where "s = p @ t" "t = a @ m @ b"
    by (auto simp: suffix_def sublist_def)
  then have "s = (p @ a) @ m @ b" by simp
  then show ?thesis unfolding sublist_def by blast
qed

lemma marker_free_lstrip: "marker_free s \<Longrightarrow> marker_free (lstrip s)"
  unfolding marker_free_def lstrip_def
  using sublist_suffix [OF suffix_dropWhile] by blast

lemma scrub_markers_free: "marker_free s \<Longrightarrow> scrub_markers s = s"
  by (simp add: scrub_markers_def marker_free_def str_remove_absent)

section \<open>Texts that the cleaning stage leaves as they are\<close>

lemma strip_last_not_LF: "strip t = t \<Longrightarrow> t = [] \<or> last t \<noteq> LF"
  using strip_ends [of t] space_LF by auto

lemma strip_prefix_lines_fixed:
  assumes "strip t = t" "lf_only t" "pop_preamble (splitlines t) = splitlines t"
  shows "strip_prefix_lines t = t"
  using assms join_splitlines [OF assms(2) strip_last_not_LF [OF assms(1)]]
  by (simp add: strip_prefix_lines_def)

lemma clean_output_fixed:
  assumes st: "strip t = t" and lf: "lf_only t" and mf: "marker_free t"
    and pp: "pop_preamble (splitlines t) = splitlines t"
    and cf: "strip_code_fences t = t"
  shows "clean_output t = t"
proof (cases "t = []")
  case True
  then show ?thesis using st by (simp add: clean_output_def)
next
  case False
  have p: "strip_prefix_lines t = t"
    by (rule strip_prefix_lines_fixed [OF st lf pp])
  from mf have nt: "\<not> sublist TEXT_marker t" and no: "\<not> sublist OUT_marker t"
    by (simp_all add: marker_free_def)
  show ?thesis
    unfolding clean_output_def Let_def
    by (simp add: st False cf p nt no scrub_markers_free [OF mf])
qed

section \<open>The first character of a normalized text\<close>

lemma splitlines_from_hd:
  "cur \<noteq> [] \<Longrightarrow>
   \<exists>l ls. splitlines_from cur s = l # ls \<and> l \<noteq> [] \<and> hd l = hd cur"
proof (induction cur s rule: splitlines_from.induct)
  case (1 cur)
  then show ?case by simp
next
  case (2 cur c)
  then show ?case by (cases "is_linebreak c") simp_all
next
  case (3 cur c d cs)
  show ?case
  proof (cases "c = CR \<and> d = LF")
    case True
    have "splitlines_from cur (c # d # cs) = cur # splitlines_from [] cs"
      by (simp only: splitlines_from.simps True if_True simp_thms)
    with "3.prems" show ?thesis by blast
  next
    case False
    note nf = this
    show ?thesis
    proof (cases "is_linebreak c")
      case True
      have "splitlines_from cur (c # d # cs) = cur # splitlines_from [] (d # cs)"
        by (simp only: splitlines_from.simps nf True if_False if_True)
      with "3.prems" show ?thesis by blast
    next
      case False
      have eq: "splitlines_from cur (c # d # cs) = splitlines_from (cur @ [c]) (d # cs)"
        by (simp only: splitlines_from.simps nf False if_False)
      have "cur @ [c] \<noteq> []" by simp
      from "3.IH"(3) [OF nf False this]
      obtain l ls where "splitlines_from (cur @ [c]) (d # cs) = l # ls" "l \<noteq> []"
        "hd l = hd (cur @ [c])" by blast
      moreover have "hd (cur @ [c]) = hd cur" using "3.prems" by simp
      ultimately show ?thesis unfolding eq by simp
    qed
  qed
qed

lemma good_head_splitlines:
  assumes "t \<noteq> []" "\<not> is_space (hd t)"
  shows "good_head (splitlines t)"
proof -
  from assms obtain c rest where t: "t = [c] @ rest" and c: "\<not> is_space c"
    by (cases t) auto
  from c have "no_break [c]"
    using linebreak_space by (auto simp: no_break_def)
  then have "splitlines_from [] ([c] @ rest) = splitlines_from ([] @ [c]) rest"
    by (rule splitlines_from_no_break)
  moreover obtain l ls where "splitlines_from [c] rest = l # ls" "l \<noteq> []" "hd l = hd [c]"
    using splitlines_from_hd [of "[c]" rest] by blast
  ultimately show ?thesis
    using c by (simp add: good_head_def splitlines_def t)
qed

lemma good_head_table: "good_head ls \<Longrightarrow> good_head (table_spacing_spec None ls)"
  by (cases ls) (simp_all add: good_head_def blank_before_run_def)

lemma good_head_option: "good_head ls \<Longrightarrow> good_head (option_spacing_spec None ls)"
  by (cases ls) (simp_all add: good_head_def blank_before_option_def)

lemma trim_lines_Cons_hd:
  "\<not> is_blank l \<Longrightarrow> \<exists>l' R'. trim_lines (l # R) = l' # R' \<and> (l' = l \<or> l' = rstrip l)"
proof (induction R rule: rev_induct)
  case Nil
  then show ?case by (simp add: trim_lines_single)
next
  case (snoc x R)
  have "trim_lines (l # R @ [x]) = trim_lines ((l # R) @ [x])" by simp
  also have "\<dots> = (if is_blank x then trim_lines (l # R) else (l # R) @ [rstrip x])"
    by (rule trim_lines_snoc)
  finally show ?case using snoc by auto
qed

lemma good_head_not_blank: "l \<noteq> [] \<Longrightarrow> \<not> is_space (hd l) \<Longrightarrow> \<not> is_blank l"
  by (cases l) (auto simp: is_blank_iff)

lemma good_head_trim: "good_head ls \<Longrightarrow> good_head (trim_lines ls)"
proof -
  assume "good_head ls"
  then obtain l R where ls: "ls = l # R" and l: "l \<noteq> []" "\<not> is_space (hd l)"
    by (cases ls) (auto simp: good_head_def)
  from l have "\<not> is_blank l" by (rule good_head_not_blank)
  then obtain l' R' where t: "trim_lines (l # R) = l' # R'" and "l' = l \<or> l' = rstrip l"
    using trim_lines_Cons_hd by blast
  with l hd_rstrip [OF l] have "l' \<noteq> [] \<and> \<not> is_space (hd l')" by auto
  with t ls show ?thesis by (simp add: good_head_def)
qed

lemma good_head_join: "good_head ls \<Longrightarrow> join_nl ls \<noteq> [] \<and> \<not> is_space (hd (join_nl ls))"
proof -
  assume "good_head ls"
  then obtain l R where ls: "ls = l # R" and l: "l \<noteq> []" "\<not> is_space (hd l)"
    by (cases ls) (auto simp: good_head_def)
  show ?thesis
    using l unfolding ls by (cases R) simp_all
qed

section \<open>A second run of the normalizer\<close>

lemma strip_clean_output: "strip (clean_output s) = clean_output s"
  by (simp add: clean_output_def Let_def strip_def[of "[]"] lstrip_def)

lemma normalize_output_lines:
  assumes "clean_output s \<noteq> []"
  defines "K \<equiv> trim_lines (option_spacing_spec None
      (trim_lines (table_spacing_spec None (splitlines (clean_output s)))))"
  shows "normalize_output s = join_nl K" and "splitlines (normalize_output s) = K"
    and "good_head K" and "successively table_ok K" and "\<forall>l \<in> set K. no_break l"
proof -
  let ?c = "clean_output s"
  have n: "normalize_output s = add_option_spacing (add_table_spacing ?c)"
    using assms(1) by (simp add: normalize_output_def Let_def)
  show 1: "splitlines (normalize_output s) = K"
    by (simp only: n splitlines_add_option_spacing splitlines_add_table_spacing K_def)
  have "normalize_output s = rstrip (join_nl (option_spacing_spec None
      (splitlines (add_table_spacing ?c))))"
    by (simp only: n add_option_spacing_eq)
  then show "normalize_output s = join_nl K"
    by (simp only: rstrip_join splitlines_add_table_spacing K_def)
  from strip_ends [of ?c] assms(1) have "\<not> is_space (hd ?c)"
    by (simp add: strip_clean_output)
  with assms(1) have "good_head (splitlines ?c)" by (rule good_head_splitlines)
  then show "good_head K"
    unfolding K_def by (intro good_head_trim good_head_option good_head_table)
  show "successively table_ok K"
    unfolding K_def
    by (intro trim_lines_successively table_ok_rstrip option_spec_keeps_tables table_spec_spaced)
  show "\<forall>l \<in> set K. no_break l"
    using splitlines_lines [of _ "normalize_output s"] unfolding 1 by blast
qed

section \<open>The output that holds the answer between its markers\<close>

lemma length_pop_preamble: "length (pop_preamble ls) \<le> length ls"
  by (induction ls) auto

lemma pop_preamble_fixed_hd:
  "pop_preamble (l # ls) = l # ls \<Longrightarrow> \<not> is_preamble (strip l)"
  using length_pop_preamble [of ls] by (auto split: if_splits)

lemma sublist_sep2:
  assumes "LF \<notin> set m" "m \<noteq> []"
  shows "sublist m (a @ LF # x @ LF # b) \<longleftrightarrow> sublist m a \<or> sublist m x \<or> sublist m b"
  using sublist_sep [OF assms, of a "x @ LF # b"] sublist_sep [OF assms, of x b] by simp

lemma marker_chars:
  "LF \<notin> set TEXT_marker" "LF \<notin> set END_marker" "LF \<notin> set OUT_marker" "LF \<notin> set ENDOUT_marker"
  "TEXT_marker \<noteq> []" "END_marker \<noteq> []" "OUT_marker \<noteq> []" "ENDOUT_marker \<noteq> []"
  "no_break OUT_marker" "no_break ENDOUT_marker"
  by (simp_all add: TEXT_marker_def END_marker_def OUT_marker_def ENDOUT_marker_def
      no_break_def is_linebreak_def)

lemma marker_overlaps:
  "\<not> sublist TEXT_marker OUT_marker" "\<not> sublist TEXT_marker ENDOUT_marker"
  "\<not> sublist END_marker ENDOUT_marker" "\<not> sublist OUT_marker ENDOUT_marker"
  "\<not> sublist OUT_marker (tl OUT_marker)"
  by code_simp+

lemma marker_removals:
  "str_remove TEXT_marker ENDOUT_marker = ENDOUT_marker"
  "str_remove END_marker ENDOUT_marker = ENDOUT_marker"
  "str_remove OUT_marker ENDOUT_marker = ENDOUT_marker"
  "str_remove ENDOUT_marker ENDOUT_marker = []"
  by code_simp+

lemma strip_blank_prefix: "is_blank w \<Longrightarrow> strip (w @ s) = strip s"
  by (simp add: strip_def lstrip_def is_blank_iff dropWhile_append2)

lemma empty_text_stages:
  "strip_prefix_lines [] = []" "strip_code_fences [] = []" "strip [] = []"
  "scrub_markers ENDOUT_marker = []" "strip ENDOUT_marker = ENDOUT_marker"
  "\<not> is_preamble (strip OUT_marker)"
  by code_simp+

section \<open>Texts that do not end in white space\<close>

lemma splitlines_from_last:
  "s \<noteq> [] \<Longrightarrow> \<not> is_space (last s) \<Longrightarrow>
   \<exists>ls l. splitlines_from cur s = ls @ [l] \<and> l \<noteq> [] \<and> last l = last s"
proof (induction cur s rule: splitlines_from.induct)
  case (1 cur)
  then show ?case by simp
next
  case (2 cur c)
  then have "\<not> is_linebreak c" using linebreak_space by auto
  then have "splitlines_from cur [c] = [] @ [cur @ [c]]" by simp
  then show ?case by fastforce
next
  case (3 cur c d cs)
  from "3.prems" have l: "\<not> is_space (last (d # cs))" by simp
  show ?case
  proof (cases "c = CR \<and> d = LF")
    case True
    have eq: "splitlines_from cur (c # d # cs) = cur # splitlines_from [] cs"
      by (simp only: splitlines_from.simps True if_True simp_thms)
    from True l have ne: "cs \<noteq> []" by (cases cs) auto
    with l have "\<not> is_space (last cs)" by simp
    from "3.IH"(1) [OF True ne this]
    obtain ls l' where "splitlines_from [] cs = ls @ [l']" "l' \<noteq> []" "last l' = last cs"
      by blast
    with ne have "splitlines_from cur (c # d # cs) = (cur # ls) @ [l'] \<and> l' \<noteq> [] \<and>
        last l' = last (c # d # cs)"
      unfolding eq by simp
    then show ?thesis by blast
  next
    case False
    note nf = this
    show ?thesis
    proof (cases "is_linebreak c")
      case True
      have eq: "splitlines_from cur (c # d # cs) = cur # splitlines_from [] (d # cs)"
        by (simp only: splitlines_from.simps nf True if_False if_True)
      have "d # cs \<noteq> []" by simp
      from "3.IH"(2) [OF nf True this l]
      obtain ls l' where "splitlines_from [] (d # cs) = ls @ [l']" "l' \<noteq> []"
        "last l' = last (d # cs)" by blast
      then have "splitlines_from cur (c # d # cs) = (cur # ls) @ [l'] \<and> l' \<noteq> [] \<and>
          last l' = last (c # d # cs)"
        unfolding eq by simp
      then show ?thesis by blast
    next
      case False
      have eq: "splitlines_from cur (c # d # cs) = splitlines_from (cur @ [c]) (d # cs)"
        by (simp only: splitlines_from.simps nf False if_False)
      have "d # cs \<noteq> []" by simp
      from "3.IH"(3) [OF nf False this l]
      obtain ls l' where "splitlines_from (cur @ [c]) (d # cs) = ls @ [l']" "l' \<noteq> []"
        "last l' = last (d # cs)" by blast
      then have "splitlines_from cur (c # d # cs) = ls @ [l'] \<and> l' \<noteq> [] \<and>
          last l' = last (c # d # cs)"
        unfolding eq by simp
      then show ?thesis by blast
    qed
  qed
qed

lemma splitlines_last:
  assumes "rstrip text = text" "text \<noteq> []"
  shows "\<exists>ls l. splitlines text = ls @ [l] \<and> \<not> is_blank l \<and> rstrip l = l"
proof -
  from assms rstrip_last [of "text"] have sp: "\<not> is_space (last text)" by simp
  from splitlines_from_last [OF assms(2) sp, of "[]"]
  obtain ls l where s: "splitlines text = ls @ [l]" and l: "l \<noteq> []" "last l = last text"
    unfolding splitlines_def by blast
  from l sp have "\<not> is_space (last l)" by simp
  with l(1) have "\<not> is_blank l" "rstrip l = l"
    by (auto simp: is_blank_iff rstrip_fixed)
  with s show ?thesis by blast
qed

lemma trim_lines_fixed: "\<not> is_blank l \<Longrightarrow> rstrip l = l \<Longrightarrow> trim_lines (ls @ [l]) = ls @ [l]"
  by (simp add: trim_lines_snoc)

lemma table_spec_last:
  "\<exists>R. table_spacing_spec prev (ls @ [l]) = R @ [l]"
proof (induction ls arbitrary: prev)
  case Nil
  show ?case by (simp add: blank_after_run_def)
next
  case (Cons x ls)
  from Cons [of "Some x"] obtain R where "table_spacing_spec (Some x) (ls @ [l]) = R @ [l]"
    by blast
  then have "table_spacing_spec prev ((x # ls) @ [l]) =
      ((if blank_before_run prev x then [[]] else []) @ [x] @
       (if blank_after_run x (ls @ [l]) then [[]] else []) @ R) @ [l]"
    by simp
  then show ?case by blast
qed

lemma option_spec_last:
  "\<exists>R. option_spacing_spec prev (ls @ [l]) = R @ [l]"
proof (induction ls arbitrary: prev)
  case Nil
  show ?case by simp
next
  case (Cons x ls)
  from Cons [of "Some x"] obtain R where "option_spacing_spec (Some x) (ls @ [l]) = R @ [l]"
    by blast
  then have "option_spacing_spec prev ((x # ls) @ [l]) =
      ((if blank_before_option prev x then [[]] else []) @ [x] @ R) @ [l]"
    by simp
  then show ?case by blast
qed

lemma add_table_spacing_exact:
  assumes "rstrip text = text"
  shows "splitlines (add_table_spacing text) = table_spacing_spec None (splitlines text)"
proof (cases "text = []")
  case True
  then show ?thesis
    by (simp add: splitlines_add_table_spacing) (simp add: splitlines_def)
next
  case False
  from splitlines_last [OF assms False]
  obtain ls l where s: "splitlines text = ls @ [l]" and l: "\<not> is_blank l" "rstrip l = l"
    by blast
  obtain R where "table_spacing_spec None (ls @ [l]) = R @ [l]"
    using table_spec_last by blast
  with l show ?thesis
    by (simp add: splitlines_add_table_spacing s trim_lines_fixed)
qed

lemma add_option_spacing_exact:
  assumes "rstrip text = text"
  shows "splitlines (add_option_spacing text) = option_spacing_spec None (splitlines text)"
proof (cases "text = []")
  case True
  then show ?thesis
    by (simp add: splitlines_add_option_spacing) (simp add: splitlines_def)
next
  case False
  from splitlines_last [OF assms False]
  obtain ls l where s: "splitlines text = ls @ [l]" and l: "\<not> is_blank l" "rstrip l = l"
    by blast
  obtain R where "option_spacing_spec None (ls @ [l]) = R @ [l]"
    using option_spec_last by blast
  with l show ?thesis
    by (simp add: splitlines_add_option_spacing s trim_lines_fixed)
qed

lemma table_spec_filter:
  "filter (\<lambda>l. l \<noteq> []) (table_spacing_spec prev ls) = filter (\<lambda>l. l \<noteq> []) ls"
  by (induction ls arbitrary: prev) simp_all

lemma count_pipes_lstrip:
  "count_list (dropWhile is_space l) (CHR ''|'') = count_list l (CHR ''|'')"
  by (induction l) (auto simp: pipe_not_space)

section \<open>The claims\<close>

text \<open>
  C1, as amended. Let \<open>t\<close> be the result of the full pipeline on a string \<open>s\<close>. When none
  of the four markers occurs in \<open>t\<close>, the preamble loop pops no line of \<open>t\<close> and the fence
  strip leaves \<open>t\<close> as it is, the pipeline returns \<open>t\<close> on \<open>t\<close>. As stated, for every
  string, the claim fails: the marker scrub deletes the markers one after the other in
  one pass and can join the two halves of a marker, the fence strip removes one fence
  line at each of its two runs, and the second fence strip can lay bare a preamble
  line; the counterexample gives one input for each.
\<close>

theorem normalize_output_twice:
  assumes mf: "marker_free (normalize_output s)"
    and pp: "pop_preamble (splitlines (normalize_output s)) = splitlines (normalize_output s)"
    and cf: "strip_code_fences (normalize_output s) = normalize_output s"
  shows "normalize_output (normalize_output s) = normalize_output s"
proof (cases "clean_output s = []")
  case True
  then have "normalize_output s = []" by (simp add: normalize_output_def)
  then show ?thesis by (simp add: normalize_output_def clean_output_def strip_def rstrip_def lstrip_def)
next
  case False
  let ?t = "normalize_output s"
  define K where "K = trim_lines (option_spacing_spec None
      (trim_lines (table_spacing_spec None (splitlines (clean_output s)))))"
  note facts = normalize_output_lines [OF False, folded K_def]
  have t: "?t = join_nl K" and sl: "splitlines ?t = K" by (rule facts)+
  have gh: "good_head K" and tk: "successively table_ok K" and nb: "\<forall>l \<in> set K. no_break l"
    by (rule facts)+
  have rs: "rstrip ?t = ?t"
    using False by (simp add: normalize_output_def Let_def add_option_spacing_eq)
  from good_head_join [OF gh] have ne: "?t \<noteq> []" and hd: "\<not> is_space (hd ?t)"
    by (simp_all add: t)
  have st: "strip ?t = ?t"
    by (simp add: strip_def lstrip_fixed hd rs)
  have lf: "lf_only ?t"
    unfolding t by (rule lf_only_join [OF nb])
  have c: "clean_output ?t = ?t"
    by (rule clean_output_fixed [OF st lf mf pp cf])
  have "table_spacing_spec None K = K"
    by (rule table_spec_fixed [OF tk]) simp
  then have tb: "add_table_spacing ?t = ?t"
    by (simp add: add_table_spacing_eq [of ?t] sl t [symmetric] rs)
  have "add_option_spacing ?t = ?t"
    using add_option_spacing_idem [of "add_table_spacing (clean_output s)"] False
    by (simp add: normalize_output_def Let_def)
  with c tb ne show ?thesis
    by (simp add: normalize_output_def [of ?t] Let_def)
qed

theorem normalize_output_not_idempotent:
  "normalize_output (normalize_output ''<<<TE<<<END>>>XT>>>a'') \<noteq>
     normalize_output ''<<<TE<<<END>>>XT>>>a'' \<and>
   normalize_output (normalize_output ''```\<newline>```\<newline>```\<newline>x'') \<noteq>
     normalize_output ''```\<newline>```\<newline>```\<newline>x'' \<and>
   normalize_output (normalize_output ''<<<END>>>```\<newline>corrected text is as follows:\<newline>foo'') \<noteq>
     normalize_output ''<<<END>>>```\<newline>corrected text is as follows:\<newline>foo''"
proof -
  have a1: "normalize_output ''<<<TE<<<END>>>XT>>>a'' = ''<<<TEXT>>>a''" by code_simp
  have a2: "normalize_output ''<<<TEXT>>>a'' = ''a''" by code_simp
  have b1: "normalize_output ''```\<newline>```\<newline>```\<newline>x'' = ''```\<newline>x''" by code_simp
  have b2: "normalize_output ''```\<newline>x'' = ''x''" by code_simp
  have c1: "normalize_output ''<<<END>>>```\<newline>corrected text is as follows:\<newline>foo'' =
      ''corrected text is as follows:\<newline>foo''" by code_simp
  have c2: "normalize_output ''corrected text is as follows:\<newline>foo'' = ''foo''" by code_simp
  show ?thesis by (simp only: a1 a2 b1 b2 c1 c2) simp
qed

theorem normalize_output_twice_witness:
  "marker_free (normalize_output ''<<<OUT>>>\<newline>Q:  \<newline>A. x \<newline>|a|b|  \<newline>  \<newline><<<ENDOUT>>>'') \<and>
   strip_code_fences (normalize_output ''<<<OUT>>>\<newline>Q:  \<newline>A. x \<newline>|a|b|  \<newline>  \<newline><<<ENDOUT>>>'') =
     normalize_output ''<<<OUT>>>\<newline>Q:  \<newline>A. x \<newline>|a|b|  \<newline>  \<newline><<<ENDOUT>>>'' \<and>
   normalize_output ''Q:  \<newline>\<newline>A. x \<newline>\<newline>|a|b|'' = ''Q:  \<newline>\<newline>A. x \<newline>\<newline>|a|b|''"
proof -
  let ?s = "''<<<OUT>>>\<newline>Q:  \<newline>A. x \<newline>|a|b|  \<newline>  \<newline><<<ENDOUT>>>''"
  have e: "normalize_output ?s = ''Q:  \<newline>\<newline>A. x \<newline>\<newline>|a|b|''" by code_simp
  have mf: "marker_free (normalize_output ?s)" unfolding e by code_simp
  have pp: "pop_preamble (splitlines (normalize_output ?s)) = splitlines (normalize_output ?s)"
    unfolding e by code_simp
  have cf: "strip_code_fences (normalize_output ?s) = normalize_output ?s"
    unfolding e by code_simp
  from normalize_output_twice [OF mf pp cf]
  have "normalize_output (normalize_output ?s) = normalize_output ?s" .
  then have "normalize_output ''Q:  \<newline>\<newline>A. x \<newline>\<newline>|a|b|'' = ''Q:  \<newline>\<newline>A. x \<newline>\<newline>|a|b|''"
    by (simp only: e)
  with mf cf show ?thesis by blast
qed

text \<open>
  C2, as amended. Let \<open>X\<close> be a string in which none of the four markers occurs, whose
  line boundaries are all line feeds, and whose trimmed form has no leading preamble
  line for the preamble loop to pop and no fence line for the fence strip to remove.
  Then \<^verbatim>\<open>_clean_output\<close> maps \<^verbatim>\<open>"<<<OUT>>>\n" + X + "\n<<<ENDOUT>>>"\<close> to the trimmed \<open>X\<close>.
  As stated, for every \<open>X\<close>, the claim fails: a marker inside \<open>X\<close> is cut out or cuts
  \<open>X\<close>, another line boundary is turned into a line feed, a leading fence line and a
  leading preamble line are removed; the counterexample gives one input for each.
\<close>

theorem marked_output:
  assumes mf: "marker_free X" and lf: "lf_only X"
    and pp: "pop_preamble (splitlines (strip X)) = splitlines (strip X)"
    and cf: "strip_code_fences (strip X) = strip X"
  shows "clean_output (OUT_marker @ LF # X @ LF # ENDOUT_marker) = strip X"
proof -
  define T where "T = LF # X @ LF # ENDOUT_marker"
  define W where "W = OUT_marker @ T"
  from mf have fX: "\<not> sublist TEXT_marker X" "\<not> sublist END_marker X"
    "\<not> sublist OUT_marker X" "\<not> sublist ENDOUT_marker X"
    by (simp_all add: marker_free_def)
  have Whd: "W = CHR ''<'' # tl OUT_marker @ T"
    by (simp add: W_def OUT_marker_def)
  have Wlast: "last W = CHR ''>''"
    by (simp add: W_def T_def ENDOUT_marker_def)
  have Wne: "W \<noteq> []" by (simp add: Whd)
  have s1: "strip W = W"
    by (rule strip_fixed) (simp add: Wlast is_space_def, simp add: Whd)
  have "\<not> prefix fence W" by (simp add: Whd fence_def)
  moreover have "\<not> suffix fence W"
  proof
    assume "suffix fence W"
    then obtain zs where "W = zs @ fence" by (auto simp: suffix_def)
    then have "last W = CHR 0x60" by (simp add: fence_def)
    with Wlast show False by simp
  qed
  ultimately have s2: "strip_code_fences W = W"
    by (simp add: strip_code_fences_def)
  have lfW: "lf_only W"
    using lf marker_chars(9,10)
    by (auto simp: lf_only_def no_break_def W_def T_def)
  have "splitlines W = OUT_marker # splitlines_from [] (X @ LF # ENDOUT_marker)"
    using splitlines_from_no_break [OF marker_chars(9), of "[]" T]
    by (simp add: splitlines_def W_def T_def splitlines_from_LF)
  then have "pop_preamble (splitlines W) = splitlines W"
    by (simp add: empty_text_stages)
  moreover have "join_nl (splitlines W) = W"
    by (rule join_splitlines [OF lfW]) (simp add: Wlast)
  ultimately have s3: "strip_prefix_lines W = W"
    by (simp add: strip_prefix_lines_def s1)
  have s4: "\<not> sublist TEXT_marker W"
    unfolding W_def T_def
    by (simp add: sublist_sep2 [OF marker_chars(1,5)] marker_overlaps fX)
  have "\<not> sublist OUT_marker (tl OUT_marker @ T)"
    unfolding T_def
    by (simp add: sublist_sep2 [OF marker_chars(3,7)] marker_overlaps fX)
  moreover have "prefix OUT_marker W" by (simp add: W_def)
  ultimately have "rfind_sub W OUT_marker = Some 0"
    unfolding Whd by (intro rfind_sub_first) simp_all
  then have s5: "rsplit1 W OUT_marker = [[], T]"
    by (simp add: rsplit1_def) (simp add: W_def)
  have s5': "sublist OUT_marker W" by (simp add: W_def)
  show ?thesis
  proof (cases "is_blank X")
    case True
    then have "is_blank (LF # X @ [LF])" by (simp add: is_blank_iff)
    then have "strip ((LF # X @ [LF]) @ ENDOUT_marker) = strip ENDOUT_marker"
      by (rule strip_blank_prefix)
    then have s6: "strip T = ENDOUT_marker"
      by (simp add: T_def empty_text_stages)
    have ne: "ENDOUT_marker \<noteq> []" by (rule marker_chars)
    have "clean_output W = []"
      unfolding clean_output_def Let_def
      by (simp add: s1 Wne s2 s3 s4 s5 s5' s6 ne empty_text_stages)
    moreover from True have "strip X = []" by (simp add: is_blank_def)
    ultimately show ?thesis by (simp add: W_def T_def)
  next
    case False
    define Y where "Y = lstrip X"
    have mfY: "marker_free Y" unfolding Y_def by (rule marker_free_lstrip [OF mf])
    then have fY: "\<not> sublist TEXT_marker Y" "\<not> sublist END_marker Y"
      "\<not> sublist OUT_marker Y" "\<not> sublist ENDOUT_marker Y"
      by (simp_all add: marker_free_def)
    have Yne: "Y \<noteq> []" and Yhd: "\<not> is_space (hd Y)"
      using False lstrip_hd [of X] blank_lstrip [of X] blank_Nil unfolding Y_def by auto
    have "lstrip T = Y @ LF # ENDOUT_marker"
      using lstrip_append [OF False, of "LF # ENDOUT_marker"]
      by (simp add: T_def Y_def lstrip_Cons)
    moreover have "rstrip (Y @ LF # ENDOUT_marker) = Y @ LF # ENDOUT_marker"
      by (rule rstrip_fixed) (simp add: ENDOUT_marker_def is_space_def)
    ultimately have s6: "strip T = Y @ LF # ENDOUT_marker"
      by (simp add: strip_def)
    have s7: "scrub_markers (Y @ LF # ENDOUT_marker) = Y @ [LF]"
      unfolding scrub_markers_def
      by (simp add: str_remove_sep marker_chars fY marker_removals)
    have lfY: "lf_only (Y @ [LF])"
      using lf unfolding Y_def lstrip_def lf_only_def
      by (auto dest: set_dropWhileD)
    define K where "K = splitlines (Y @ [LF])"
    have jK: "join_nl K = Y"
      using join_splitlines_from [OF lfY, of "[]"]
      by (simp add: K_def splitlines_def chop_LF_def)
    have nbK: "\<forall>l \<in> set K. no_break l"
      unfolding K_def using splitlines_lines by blast
    have "strip X = rstrip Y" by (simp add: strip_def Y_def)
    then have "splitlines (strip X) = trim_lines K"
      using splitlines_rstrip_join [OF nbK] by (simp add: jK)
    with pp have ppK: "pop_preamble (trim_lines K) = trim_lines K" by simp
    have "good_head K"
      unfolding K_def using Yne Yhd by (intro good_head_splitlines) simp_all
    then obtain k ks where K: "K = k # ks" and k: "k \<noteq> []" "\<not> is_space (hd k)"
      by (cases K) (auto simp: good_head_def)
    from k have "\<not> is_blank k" by (rule good_head_not_blank)
    then obtain k' R' where t: "trim_lines (k # ks) = k' # R'" and k': "k' = k \<or> k' = rstrip k"
      using trim_lines_Cons_hd by blast
    from ppK have "\<not> is_preamble (strip k')"
      unfolding K t by (rule pop_preamble_fixed_hd)
    moreover from k' have "strip k' = strip k" by auto
    ultimately have pK: "pop_preamble K = K" by (simp add: K)
    have "strip_prefix_lines (Y @ [LF]) = strip (join_nl (pop_preamble K))"
      by (simp only: strip_prefix_lines_def K_def)
    also have "\<dots> = strip Y" by (simp only: pK jK)
    also have "\<dots> = strip X" by (simp add: Y_def)
    finally have s8: "strip_prefix_lines (Y @ [LF]) = strip X" .
    have ne: "Y @ LF # ENDOUT_marker \<noteq> []" by simp
    have "clean_output W = strip X"
      unfolding clean_output_def Let_def
      by (simp add: s1 Wne s2 s3 s4 s5 s5' s6 ne s7 s8 cf)
    then show ?thesis by (simp add: W_def T_def)
  qed
qed

theorem marked_output_counterexample:
  "clean_output (OUT_marker @ LF # ''a<<<OUT>>>b'' @ LF # ENDOUT_marker) \<noteq> strip ''a<<<OUT>>>b'' \<and>
   clean_output (OUT_marker @ LF # [CHR ''a'', CR, CHR ''b''] @ LF # ENDOUT_marker) \<noteq>
     strip [CHR ''a'', CR, CHR ''b''] \<and>
   clean_output (OUT_marker @ LF # ''```\<newline>foo'' @ LF # ENDOUT_marker) \<noteq> strip ''```\<newline>foo'' \<and>
   clean_output (OUT_marker @ LF # ''Corrected text is as follows:\<newline>foo'' @ LF # ENDOUT_marker) \<noteq>
     strip ''Corrected text is as follows:\<newline>foo''"
proof -
  have a: "clean_output (OUT_marker @ LF # ''a<<<OUT>>>b'' @ LF # ENDOUT_marker) = ''b''"
    by code_simp
  have a': "strip ''a<<<OUT>>>b'' = ''a<<<OUT>>>b''" by code_simp
  have b: "clean_output (OUT_marker @ LF # [CHR ''a'', CR, CHR ''b''] @ LF # ENDOUT_marker) =
      [CHR ''a'', LF, CHR ''b'']" by code_simp
  have b': "strip [CHR ''a'', CR, CHR ''b''] = [CHR ''a'', CR, CHR ''b'']" by code_simp
  have c: "clean_output (OUT_marker @ LF # ''```\<newline>foo'' @ LF # ENDOUT_marker) = ''foo''"
    by code_simp
  have c': "strip ''```\<newline>foo'' = ''```\<newline>foo''" by code_simp
  have d: "clean_output (OUT_marker @ LF # ''Corrected text is as follows:\<newline>foo'' @ LF # ENDOUT_marker) =
      ''foo''" by code_simp
  have d': "strip ''Corrected text is as follows:\<newline>foo'' = ''Corrected text is as follows:\<newline>foo''"
    by code_simp
  show ?thesis by (simp only: a a' b b' c c' d d') simp
qed

theorem marked_output_witness:
  "marker_free ''  one  two\<newline>A. x \<newline>'' \<and> lf_only ''  one  two\<newline>A. x \<newline>'' \<and>
   strip_code_fences (strip ''  one  two\<newline>A. x \<newline>'') = strip ''  one  two\<newline>A. x \<newline>'' \<and>
   clean_output (''<<<OUT>>>\<newline>'' @ ''  one  two\<newline>A. x \<newline>'' @ ''\<newline><<<ENDOUT>>>'') =
     ''one  two\<newline>A. x''"
proof -
  let ?X = "''  one  two\<newline>A. x \<newline>''"
  have mf: "marker_free ?X" by code_simp
  have lf: "lf_only ?X" by code_simp
  have pp: "pop_preamble (splitlines (strip ?X)) = splitlines (strip ?X)" by code_simp
  have cf: "strip_code_fences (strip ?X) = strip ?X" by code_simp
  have s: "strip ?X = ''one  two\<newline>A. x''" by code_simp
  from marked_output [OF mf lf pp cf]
  have "clean_output (OUT_marker @ LF # ?X @ LF # ENDOUT_marker) = strip ?X" .
  then have "clean_output (''<<<OUT>>>\<newline>'' @ ?X @ ''\<newline><<<ENDOUT>>>'') = ''one  two\<newline>A. x''"
    by (simp add: OUT_marker_def ENDOUT_marker_def s)
  with mf lf cf s show ?thesis by simp
qed

text \<open>
  C3. Among the catalog files that end in \<^verbatim>\<open>.gguf\<close>, taken in catalog order,
  \<^verbatim>\<open>_choose_gguf\<close> returns the first file that contains the first tag of the ordered
  tag list contained in any of them. When no such file contains any tag, the result is
  empty if the non-quantized fallback is disallowed, which is the default of the
  environment flag and makes the repository walk go on to the next repository, and it is
  the first \<^verbatim>\<open>.gguf\<close> file if the fallback is allowed. The catalog
  \<^verbatim>\<open>["m-f16.gguf", "m-Q4_K_M.gguf", "m-Q5.gguf"]\<close> selects \<^verbatim>\<open>"m-Q4_K_M.gguf"\<close>.
\<close>

theorem choose_gguf_selection:
  "(preferred = ts1 @ tag # ts2 \<and> (\<forall>t \<in> set ts1. \<forall>n \<in> set (gguf_files files). \<not> sublist t n) \<and>
    gguf_files files = ns1 @ name # ns2 \<and> sublist tag name \<and> (\<forall>n \<in> set ns1. \<not> sublist tag n)
      \<longrightarrow> choose_gguf files require_q4 = name) \<and>
   ((\<forall>t \<in> set preferred. \<forall>n \<in> set (gguf_files files). \<not> sublist t n)
      \<longrightarrow> choose_gguf files True = [] \<and>
          choose_gguf files False = (case gguf_files files of [] \<Rightarrow> [] | f # _ \<Rightarrow> f) \<and>
          (catalog repo = files \<longrightarrow>
             select_model catalog True (repo # repos) = select_model catalog True repos)) \<and>
   require_q4_of_env None \<and>
   choose_gguf [''m-f16.gguf'', ''m-Q4_K_M.gguf'', ''m-Q5.gguf''] require_q4 = ''m-Q4_K_M.gguf''"
proof (intro conjI impI)
  assume a: "preferred = ts1 @ tag # ts2 \<and>
    (\<forall>t \<in> set ts1. \<forall>n \<in> set (gguf_files files). \<not> sublist t n) \<and>
    gguf_files files = ns1 @ name # ns2 \<and> sublist tag name \<and> (\<forall>n \<in> set ns1. \<not> sublist tag n)"
  then have "first_with_tag tag (gguf_files files) = Some name"
    by (intro first_with_tag_Some [where ?ns1.0 = ns1 and ?ns2.0 = ns2]) auto
  with a have "scan_tags preferred (gguf_files files) = Some name"
    by (intro scan_tags_Some [where ?ts1.0 = ts1 and ?ts2.0 = ts2 and tag = tag]) auto
  moreover from a have "gguf_files files \<noteq> []" by auto
  ultimately show "choose_gguf files require_q4 = name"
    by (simp add: choose_gguf_def Let_def)
next
  assume a: "\<forall>t \<in> set preferred. \<forall>n \<in> set (gguf_files files). \<not> sublist t n"
  then have n: "scan_tags preferred (gguf_files files) = None"
    by (simp add: scan_tags_None)
  then show t: "choose_gguf files True = []"
    by (simp add: choose_gguf_def Let_def)
  from n show "choose_gguf files False = (case gguf_files files of [] \<Rightarrow> [] | f # _ \<Rightarrow> f)"
    by (simp add: choose_gguf_def Let_def split: list.splits)
  assume "catalog repo = files"
  with t show "select_model catalog True (repo # repos) = select_model catalog True repos"
    by (simp add: Let_def)
next
  show "require_q4_of_env None"
    by (simp add: require_q4_of_env_def)
next
  have g: "gguf_files [''m-f16.gguf'', ''m-Q4_K_M.gguf'', ''m-Q5.gguf'']
      = [''m-f16.gguf'', ''m-Q4_K_M.gguf'', ''m-Q5.gguf'']"
    unfolding gguf_files_def by code_simp
  have s: "scan_tags preferred [''m-f16.gguf'', ''m-Q4_K_M.gguf'', ''m-Q5.gguf'']
      = Some ''m-Q4_K_M.gguf''"
    by code_simp
  show "choose_gguf [''m-f16.gguf'', ''m-Q4_K_M.gguf'', ''m-Q5.gguf''] require_q4 = ''m-Q4_K_M.gguf''"
    by (simp only: choose_gguf_def Let_def g s) simp
qed

theorem choose_gguf_selection_witness:
  "choose_gguf [''readme.md'', ''m-q4.gguf'', ''m-Q4_K.gguf'', ''n-Q4_K.gguf''] True = ''m-Q4_K.gguf'' \<and>
   choose_gguf [''m-Q4_K_M.txt'', ''m-f16.gguf'', ''m-f32.gguf''] True = [] \<and>
   choose_gguf [''m-Q4_K_M.txt'', ''m-f16.gguf'', ''m-f32.gguf''] False = ''m-f16.gguf'' \<and>
   select_model (\<lambda>r. if r = ''a'' then [''m-Q4_K_M.txt'', ''m-f16.gguf'', ''m-f32.gguf'']
                      else [''m-Q4.gguf'']) True [''a'', ''b''] = Some (''b'', ''m-Q4.gguf'')"
proof -
  let ?files = "[''readme.md'', ''m-q4.gguf'', ''m-Q4_K.gguf'', ''n-Q4_K.gguf'']"
  let ?plain = "[''m-Q4_K_M.txt'', ''m-f16.gguf'', ''m-f32.gguf'']"
  let ?catalog = "\<lambda>r. if r = ''a'' then ?plain else [''m-Q4.gguf'']"
  have g: "gguf_files ?files = [''m-q4.gguf''] @ ''m-Q4_K.gguf'' # [''n-Q4_K.gguf'']"
    unfolding gguf_files_def by code_simp
  have p: "preferred = [''Q4_K_M''] @ ''Q4_K'' # [''Q4'', ''q4'']"
    by (simp add: preferred_def)
  have h1: "\<forall>t \<in> set [''Q4_K_M'']. \<forall>n \<in> set (gguf_files ?files). \<not> sublist t n"
    unfolding gguf_files_def by code_simp
  have h2: "sublist ''Q4_K'' ''m-Q4_K.gguf''" by code_simp
  have h3: "\<forall>n \<in> set [''m-q4.gguf'']. \<not> sublist ''Q4_K'' n" by code_simp
  have first: "choose_gguf ?files True = ''m-Q4_K.gguf''"
    using choose_gguf_selection [of "[''Q4_K_M'']" "''Q4_K''" "[''Q4'', ''q4'']" ?files
        "[''m-q4.gguf'']" "''m-Q4_K.gguf''" "[''n-Q4_K.gguf'']" True]
      p h1 g h2 h3 by blast
  have h4: "\<forall>t \<in> set preferred. \<forall>n \<in> set (gguf_files ?plain). \<not> sublist t n"
    unfolding gguf_files_def by code_simp
  have gp: "gguf_files ?plain = [''m-f16.gguf'', ''m-f32.gguf'']"
    unfolding gguf_files_def by code_simp
  note second = choose_gguf_selection [of _ _ _ ?plain _ _ _ _ ?catalog "''a''" "[''b'']"]
  from second h4 have e: "choose_gguf ?plain True = []" by blast
  from second h4 have "choose_gguf ?plain False = (case gguf_files ?plain of [] \<Rightarrow> [] | f # _ \<Rightarrow> f)"
    by blast
  then have f: "choose_gguf ?plain False = ''m-f16.gguf''"
    by (simp only: gp list.case)
  have c: "?catalog ''a'' = ?plain" by simp
  from second h4 c have "select_model ?catalog True [''a'', ''b''] = select_model ?catalog True [''b'']"
    by blast
  also have "\<dots> = Some (''b'', ''m-Q4.gguf'')"
    by code_simp
  finally show ?thesis using first e f by blast
qed

text \<open>
  C4, as amended. For every text the result of \<^verbatim>\<open>_add_table_spacing\<close> is the
  right-stripped join of the lines that the specification's rule gives on the lines of
  the text: the source lines unchanged and in order, with one blank line before each run
  of table lines whose preceding line exists and is not blank, and one blank line after
  each run whose following source line exists and is not blank. So the lines of the
  result are the rule's lines with the blank lines at the end dropped and the last line
  that remains right-stripped, and they are the rule's lines themselves when the text
  does not end in white space. The loop of the pass emits the rule's lines on every list
  of lines, and apart from empty lines its output is its input. A line is a table line
  iff, after left-trimming, it begins with a pipe and the line holds at least two pipes.
  The lines \<^verbatim>\<open>["intro", "|a|b|", "|-|-|", "|1|2|", "outro"]\<close> become
  \<^verbatim>\<open>["intro", "", "|a|b|", "|-|-|", "|1|2|", "", "outro"]\<close>, in the loop and in the
  pass on the text that has these lines.
\<close>

theorem table_spacing_pass:
  "add_table_spacing src = rstrip (join_nl (table_spacing_spec None (splitlines src))) \<and>
   splitlines (add_table_spacing src) = trim_lines (table_spacing_spec None (splitlines src)) \<and>
   (rstrip src = src \<longrightarrow>
      splitlines (add_table_spacing src) = table_spacing_spec None (splitlines src)) \<and>
   table_loop [] lines = table_spacing_spec None lines \<and>
   filter (\<lambda>l. l \<noteq> []) (table_loop [] lines) = filter (\<lambda>l. l \<noteq> []) lines \<and>
   (is_table_line line \<longleftrightarrow>
      prefix ''|'' (dropWhile is_space line) \<and> 2 \<le> count_list line (CHR ''|'')) \<and>
   table_loop [] [''intro'', ''|a|b|'', ''|-|-|'', ''|1|2|'', ''outro''] =
     [''intro'', [], ''|a|b|'', ''|-|-|'', ''|1|2|'', [], ''outro''] \<and>
   splitlines (add_table_spacing ''intro\<newline>|a|b|\<newline>|-|-|\<newline>|1|2|\<newline>outro'') =
     [''intro'', [], ''|a|b|'', ''|-|-|'', ''|1|2|'', [], ''outro'']"
proof (intro conjI impI)
  show "add_table_spacing src = rstrip (join_nl (table_spacing_spec None (splitlines src)))"
    by (rule add_table_spacing_eq)
  show "splitlines (add_table_spacing src) = trim_lines (table_spacing_spec None (splitlines src))"
    by (rule splitlines_add_table_spacing)
  show "table_loop [] lines = table_spacing_spec None lines"
    by (rule table_loop_eq_spec)
  show "filter (\<lambda>l. l \<noteq> []) (table_loop [] lines) = filter (\<lambda>l. l \<noteq> []) lines"
    by (simp only: table_loop_eq_spec table_spec_filter)
  show "is_table_line line \<longleftrightarrow>
      prefix ''|'' (dropWhile is_space line) \<and> 2 \<le> count_list line (CHR ''|'')"
    by (simp add: is_table_line_def lstrip_def Let_def count_pipes_lstrip)
  show "table_loop [] [''intro'', ''|a|b|'', ''|-|-|'', ''|1|2|'', ''outro''] =
     [''intro'', [], ''|a|b|'', ''|-|-|'', ''|1|2|'', [], ''outro'']"
    by code_simp
  show "splitlines (add_table_spacing ''intro\<newline>|a|b|\<newline>|-|-|\<newline>|1|2|\<newline>outro'') =
     [''intro'', [], ''|a|b|'', ''|-|-|'', ''|1|2|'', [], ''outro'']"
    by code_simp
next
  assume "rstrip src = src"
  then show "splitlines (add_table_spacing src) = table_spacing_spec None (splitlines src)"
    by (rule add_table_spacing_exact)
qed

text \<open>
  As stated, for every list of lines and with all lines that are not table lines left
  unchanged, the claim fails for the pass: on the text with the lines
  \<^verbatim>\<open>["|a|b|", "x  ", "  "]\<close> the final \<^verbatim>\<open>rstrip\<close> of the joined lines leaves
  \<^verbatim>\<open>["|a|b|", "", "x"]\<close>. The line \<^verbatim>\<open>"x  "\<close>, which is not a table line, has lost its
  trailing blanks, and the blank line after it is gone.
\<close>

theorem table_spacing_pass_counterexample:
  "splitlines ''|a|b|\<newline>x  \<newline>  '' = [''|a|b|'', ''x  '', ''  ''] \<and>
   \<not> is_table_line ''x  '' \<and>
   splitlines (add_table_spacing ''|a|b|\<newline>x  \<newline>  '') = [''|a|b|'', [], ''x''] \<and>
   ''x  '' \<notin> set (splitlines (add_table_spacing ''|a|b|\<newline>x  \<newline>  ''))"
proof -
  have a: "splitlines ''|a|b|\<newline>x  \<newline>  '' = [''|a|b|'', ''x  '', ''  '']" by code_simp
  have b: "\<not> is_table_line ''x  ''" by code_simp
  have c: "splitlines (add_table_spacing ''|a|b|\<newline>x  \<newline>  '') = [''|a|b|'', [], ''x'']"
    by code_simp
  have d: "''x  '' \<notin> set [''|a|b|'', [], ''x'']" by simp
  from a b c d show ?thesis by (simp only: c) simp
qed

theorem table_spacing_pass_witness:
  "rstrip ''|a|b|\<newline>x\<newline>\<newline>  |c|d|\<newline>   \<newline>y\<newline>|e||'' = ''|a|b|\<newline>x\<newline>\<newline>  |c|d|\<newline>   \<newline>y\<newline>|e||'' \<and>
   splitlines (add_table_spacing ''|a|b|\<newline>x\<newline>\<newline>  |c|d|\<newline>   \<newline>y\<newline>|e||'') =
     [''|a|b|'', [], ''x'', [], ''  |c|d|'', ''   '', ''y'', [], ''|e||''] \<and>
   add_table_spacing ''|a|b|\<newline>x  \<newline>  '' = ''|a|b|\<newline>\<newline>x''"
proof -
  let ?t = "''|a|b|\<newline>x\<newline>\<newline>  |c|d|\<newline>   \<newline>y\<newline>|e||''"
  let ?u = "''|a|b|\<newline>x  \<newline>  ''"
  have r: "rstrip ?t = ?t" by code_simp
  from table_spacing_pass [where src = ?t] r
  have "splitlines (add_table_spacing ?t) = table_spacing_spec None (splitlines ?t)" by blast
  also have "\<dots> = [''|a|b|'', [], ''x'', [], ''  |c|d|'', ''   '', ''y'', [], ''|e||'']"
    by code_simp
  finally have 1: "splitlines (add_table_spacing ?t) =
      [''|a|b|'', [], ''x'', [], ''  |c|d|'', ''   '', ''y'', [], ''|e||'']" .
  from table_spacing_pass [where src = ?u]
  have "add_table_spacing ?u = rstrip (join_nl (table_spacing_spec None (splitlines ?u)))"
    by blast
  also have "\<dots> = ''|a|b|\<newline>\<newline>x''" by code_simp
  finally have 2: "add_table_spacing ?u = ''|a|b|\<newline>\<newline>x''" .
  from r 1 2 show ?thesis by blast
qed

text \<open>
  C5, as amended. For every text the result of \<^verbatim>\<open>_add_option_spacing\<close> is the
  right-stripped join of the lines that the specification's rule gives on the lines of
  the text: the source lines unchanged and in order, with one blank line before each
  option line that starts an option block, that is, whose preceding line exists, is not
  blank and is not an option line. So the lines of the result are the rule's lines with
  the blank lines at the end dropped and the last line that remains right-stripped, and
  they are the rule's lines themselves when the text does not end in white space. The
  loop of the pass emits the rule's lines on every list of lines. The rule puts no blank
  line between two consecutive option lines; a blank line is emitted as it is, leaves
  the block flag of the loop as it is, and no blank line is added before the line after
  it. A second run changes nothing, of the loop on its lines and of the pass on its
  text. The lines \<^verbatim>\<open>["Question:", "A. foo", "B. bar", "Next para"]\<close> get one blank line,
  before \<^verbatim>\<open>"A. foo"\<close>, in the loop and in the pass on the text that has these lines.
\<close>

theorem option_spacing_pass:
  "add_option_spacing src = rstrip (join_nl (option_spacing_spec None (splitlines src))) \<and>
   splitlines (add_option_spacing src) = trim_lines (option_spacing_spec None (splitlines src)) \<and>
   (rstrip src = src \<longrightarrow>
      splitlines (add_option_spacing src) = option_spacing_spec None (splitlines src)) \<and>
   option_loop [] False lines = option_spacing_spec None lines \<and>
   (is_option a \<longrightarrow> \<not> blank_before_option (Some a) b) \<and>
   (is_blank b \<longrightarrow>
      option_loop result in_block (b # lines) = option_loop (result @ [b]) in_block lines \<and>
      option_spacing_spec prev (b # lines) = b # option_spacing_spec (Some b) lines \<and>
      \<not> blank_before_option (Some b) a) \<and>
   option_loop [] False (option_loop [] False lines) = option_loop [] False lines \<and>
   add_option_spacing (add_option_spacing src) = add_option_spacing src \<and>
   option_loop [] False [''Question:'', ''A. foo'', ''B. bar'', ''Next para''] =
     [''Question:'', [], ''A. foo'', ''B. bar'', ''Next para''] \<and>
   splitlines (add_option_spacing ''Question:\<newline>A. foo\<newline>B. bar\<newline>Next para'') =
     [''Question:'', [], ''A. foo'', ''B. bar'', ''Next para'']"
proof (intro conjI impI)
  show "add_option_spacing src = rstrip (join_nl (option_spacing_spec None (splitlines src)))"
    by (rule add_option_spacing_eq)
  show "splitlines (add_option_spacing src) = trim_lines (option_spacing_spec None (splitlines src))"
    by (rule splitlines_add_option_spacing)
  show "option_loop [] False lines = option_spacing_spec None lines"
    by (rule option_loop_eq_spec)
  show "option_loop [] False (option_loop [] False lines) = option_loop [] False lines"
    by (simp only: option_loop_eq_spec option_spec_idem)
  show "add_option_spacing (add_option_spacing src) = add_option_spacing src"
    by (rule add_option_spacing_idem)
  show "option_loop [] False [''Question:'', ''A. foo'', ''B. bar'', ''Next para''] =
     [''Question:'', [], ''A. foo'', ''B. bar'', ''Next para'']"
    by code_simp
  show "splitlines (add_option_spacing ''Question:\<newline>A. foo\<newline>B. bar\<newline>Next para'') =
     [''Question:'', [], ''A. foo'', ''B. bar'', ''Next para'']"
    by code_simp
next
  assume "rstrip src = src"
  then show "splitlines (add_option_spacing src) = option_spacing_spec None (splitlines src)"
    by (rule add_option_spacing_exact)
next
  assume "is_option a"
  then show "\<not> blank_before_option (Some a) b"
    by (simp add: blank_before_option_def)
next
  assume b: "is_blank b"
  then have n: "\<not> is_option b" using option_not_blank by blast
  with b show "option_loop result in_block (b # lines) = option_loop (result @ [b]) in_block lines"
    by simp
  from n show "option_spacing_spec prev (b # lines) = b # option_spacing_spec (Some b) lines"
    by (simp add: blank_before_option_def)
  from b show "\<not> blank_before_option (Some b) a"
    by (simp add: blank_before_option_def)
qed

text \<open>
  As stated, for every list of lines and with blank lines passing through, the claim
  fails for the pass: on the text with the lines \<^verbatim>\<open>["Q", "A. x  ", "  "]\<close> the final
  \<^verbatim>\<open>rstrip\<close> of the joined lines leaves \<^verbatim>\<open>["Q", "", "A. x"]\<close>. The blank line at the
  end is gone, and the option line before it has lost its trailing blanks.
\<close>

theorem option_spacing_pass_counterexample:
  "splitlines ''Q\<newline>A. x  \<newline>  '' = [''Q'', ''A. x  '', ''  ''] \<and>
   is_blank ''  '' \<and>
   splitlines (add_option_spacing ''Q\<newline>A. x  \<newline>  '') = [''Q'', [], ''A. x''] \<and>
   ''  '' \<notin> set (splitlines (add_option_spacing ''Q\<newline>A. x  \<newline>  ''))"
proof -
  have a: "splitlines ''Q\<newline>A. x  \<newline>  '' = [''Q'', ''A. x  '', ''  '']" by code_simp
  have b: "is_blank ''  ''" by code_simp
  have c: "splitlines (add_option_spacing ''Q\<newline>A. x  \<newline>  '') = [''Q'', [], ''A. x'']"
    by code_simp
  from a b show ?thesis by (simp only: c) simp
qed

theorem option_spacing_pass_witness:
  "rstrip ''Pick:\<newline>1) one\<newline>  \<newline>2) two\<newline>so\<newline>A. x'' = ''Pick:\<newline>1) one\<newline>  \<newline>2) two\<newline>so\<newline>A. x'' \<and>
   is_option ''1) one'' \<and> is_blank ''  '' \<and>
   splitlines (add_option_spacing ''Pick:\<newline>1) one\<newline>  \<newline>2) two\<newline>so\<newline>A. x'') =
     [''Pick:'', [], ''1) one'', ''  '', ''2) two'', ''so'', [], ''A. x''] \<and>
   add_option_spacing ''Q\<newline>A. x  \<newline>  '' = ''Q\<newline>\<newline>A. x'' \<and>
   \<not> blank_before_option (Some ''1) one'') ''2) two'' \<and>
   \<not> blank_before_option (Some ''  '') ''2) two'' \<and>
   option_spacing_spec (Some ''1) one'') [''  '', ''2) two''] = [''  '', ''2) two'']"
proof -
  let ?t = "''Pick:\<newline>1) one\<newline>  \<newline>2) two\<newline>so\<newline>A. x''"
  let ?u = "''Q\<newline>A. x  \<newline>  ''"
  have r: "rstrip ?t = ?t" by code_simp
  have o: "is_option ''1) one''" by code_simp
  have b: "is_blank ''  ''" by code_simp
  note t = option_spacing_pass [where src = ?t and a = "''1) one''" and b = "''2) two''"]
  from t r have "splitlines (add_option_spacing ?t) = option_spacing_spec None (splitlines ?t)"
    by blast
  also have "\<dots> = [''Pick:'', [], ''1) one'', ''  '', ''2) two'', ''so'', [], ''A. x'']"
    by code_simp
  finally have 1: "splitlines (add_option_spacing ?t) =
      [''Pick:'', [], ''1) one'', ''  '', ''2) two'', ''so'', [], ''A. x'']" .
  from option_spacing_pass [where src = ?u]
  have "add_option_spacing ?u = rstrip (join_nl (option_spacing_spec None (splitlines ?u)))"
    by blast
  also have "\<dots> = ''Q\<newline>\<newline>A. x''" by code_simp
  finally have 2: "add_option_spacing ?u = ''Q\<newline>\<newline>A. x''" .
  from t o have 3: "\<not> blank_before_option (Some ''1) one'') ''2) two''" by blast
  note v = option_spacing_pass [where b = "''  ''" and a = "''2) two''"
      and prev = "Some ''1) one''" and lines = "[''2) two'']"]
  from v b have 4: "\<not> blank_before_option (Some ''  '') ''2) two''" by blast
  from v b have "option_spacing_spec (Some ''1) one'') [''  '', ''2) two''] =
      ''  '' # option_spacing_spec (Some ''  '') [''2) two'']" by blast
  also have "\<dots> = [''  '', ''2) two'']" using 4 by simp
  finally have 5: "option_spacing_spec (Some ''1) one'') [''  '', ''2) two''] = [''  '', ''2) two'']" .
  from r o b 1 2 3 4 5 show ?thesis by blast
qed

text \<open>
  C6. For every list of input lines the loop writes exactly one response for each line
  that is not blank, in the order of the lines, whatever the decoder and the generation
  call do. When the processing of a line raises an exception, that line gets the
  response with the empty text and the loop goes on with the lines after it.
\<close>

theorem protocol_loop_responses:
  "out (main_loop e n_ctx lines st) =
     out st @ map (\<lambda>raw. reply e n_ctx (strip raw)) (filter (\<lambda>raw. strip raw \<noteq> []) lines) \<and>
   length (out (main_loop e n_ctx lines st)) =
     length (out st) + length (filter (\<lambda>raw. strip raw \<noteq> []) lines) \<and>
   (strip raw \<noteq> [] \<and> fst (try_body e n_ctx (strip raw) (calls st)) = Inl err \<longrightarrow>
      out (main_loop e n_ctx (raw # lines) st) =
        out st @ Text [] #
          map (\<lambda>raw. reply e n_ctx (strip raw)) (filter (\<lambda>raw. strip raw \<noteq> []) lines)) \<and>
   fst (main e (Inr n_ctx) lines) = 0 \<and>
   out (snd (main e (Inr n_ctx) lines)) =
     Ready # map (\<lambda>raw. reply e n_ctx (strip raw)) (filter (\<lambda>raw. strip raw \<noteq> []) lines)"
proof (intro conjI impI)
  show "out (main_loop e n_ctx lines st) =
     out st @ map (\<lambda>raw. reply e n_ctx (strip raw)) (filter (\<lambda>raw. strip raw \<noteq> []) lines)"
    by (rule out_main_loop)
  then show "length (out (main_loop e n_ctx lines st)) =
     length (out st) + length (filter (\<lambda>raw. strip raw \<noteq> []) lines)"
    by simp
  show "fst (main e (Inr n_ctx) lines) = 0"
    by (simp add: main_def)
  show "out (snd (main e (Inr n_ctx) lines)) =
     Ready # map (\<lambda>raw. reply e n_ctx (strip raw)) (filter (\<lambda>raw. strip raw \<noteq> []) lines)"
    by (simp add: main_def out_main_loop)
next
  assume a: "strip raw \<noteq> [] \<and> fst (try_body e n_ctx (strip raw) (calls st)) = Inl err"
  then have "fst (try_body e n_ctx (strip raw) []) = Inl err"
    using fst_try_body [of e n_ctx "strip raw" "calls st"] by simp
  then have "reply e n_ctx (strip raw) = Text []"
    by (simp add: reply_def)
  with a show "out (main_loop e n_ctx (raw # lines) st) =
        out st @ Text [] #
          map (\<lambda>raw. reply e n_ctx (strip raw)) (filter (\<lambda>raw. strip raw \<noteq> []) lines)"
    by (simp add: out_main_loop out_handle_line)
qed

theorem protocol_loop_responses_witness:
  "strip ''not json\<newline>'' \<noteq> [] \<and>
   fst (try_body env0 4096 (strip ''not json\<newline>'') (calls st0)) = Inl (Error ''JSONDecodeError'') \<and>
   out (main_loop env0 4096 [''not json\<newline>'', ''  \<newline>'', ''{}\<newline>''] st0) = [Ready, Text [], Text []]"
proof -
  have s1: "strip ''not json\<newline>'' = ''not json''" by code_simp
  have s2: "strip ''  \<newline>'' = []" by code_simp
  have s3: "strip ''{}\<newline>'' = ''{}''" by code_simp
  have t: "fst (try_body env0 4096 ''not json'' (calls st0)) = Inl (Error ''JSONDecodeError'')"
    by (simp add: try_body_def env0_def)
  have r: "reply env0 4096 ''{}'' = Text []"
    by (simp add: reply_def try_body_def env0_def)
  from protocol_loop_responses [of env0 4096 "[''  \<newline>'', ''{}\<newline>'']" st0 "''not json\<newline>''"
      "Error ''JSONDecodeError''"]
  have "out (main_loop env0 4096 [''not json\<newline>'', ''  \<newline>'', ''{}\<newline>''] st0) =
      out st0 @ Text [] # map (\<lambda>raw. reply env0 4096 (strip raw))
        (filter (\<lambda>raw. strip raw \<noteq> []) [''  \<newline>'', ''{}\<newline>''])"
    using t by (simp only: s1) simp
  also have "\<dots> = [Ready, Text [], Text []]"
    by (simp add: s2 s3 r st0_def)
  finally show ?thesis using t by (simp add: s1)
qed

text \<open>
  C7. A request whose \<^verbatim>\<open>text\<close> field is the empty string gets the response with the
  empty text, and the handling of that line makes no generation call: the list of
  calls is as it was before.
\<close>

theorem empty_text_no_generation:
  assumes "json_loads e line = Inr (JObject kvs)" and "map_of kvs ''text'' = Some (JString [])"
  shows "handle_line e n_ctx line st = st\<lparr>out := out st @ [Text []]\<rparr> \<and>
         calls (handle_line e n_ctx line st) = calls st"
  using assms by (simp add: handle_line_def try_body_def)

theorem empty_text_no_generation_witness:
  "json_loads (env0\<lparr>json_loads := \<lambda>s. Inr (JObject [(''text'', JString [])])\<rparr>) ''{\"text\": \"\"}''
     = Inr (JObject [(''text'', JString [])]) \<and>
   map_of [(''text'', JString [])] ''text'' = Some (JString []) \<and>
   handle_line (env0\<lparr>json_loads := \<lambda>s. Inr (JObject [(''text'', JString [])])\<rparr>) 4096
     ''{\"text\": \"\"}'' st0 = \<lparr>out = [Ready, Text []], calls = [], logged = []\<rparr>"
proof -
  let ?e = "env0\<lparr>json_loads := \<lambda>s. Inr (JObject [(''text'', JString [])])\<rparr>"
  have a: "json_loads ?e ''{\"text\": \"\"}'' = Inr (JObject [(''text'', JString [])])" by simp
  have b: "map_of [(''text'', JString [])] ''text'' = Some (JString [])" by simp
  from empty_text_no_generation [OF a b, of 4096 st0]
  have "handle_line ?e 4096 ''{\"text\": \"\"}'' st0 = st0\<lparr>out := out st0 @ [Text []]\<rparr>" by blast
  then show ?thesis using a b by (simp add: st0_def)
qed

text \<open>
  C8. The output token bound of \<^verbatim>\<open>_max_tokens\<close> for a text is the maximum of 128 and the
  minimum of the length estimate \<open>max(128, len(text) // 2)\<close> with both 2048 and
  \<open>n_ctx - 128\<close>, that is, the estimate clamped between 128 and \<open>min(2048, n_ctx - 128)\<close>.
\<close>

theorem max_tokens_clamp:
  "max_tokens (JString text) n_ctx =
     Inr (clamp_spec (max 128 (int (length text) div 2)) 128 (min 2048 (n_ctx - 128))) \<and>
   max_tokens (JString text) n_ctx =
     Inr (max 128 (min (max 128 (int (length text) div 2)) (min 2048 (n_ctx - 128))))"
  by (auto simp: max_tokens_def clamp_spec_def Let_def max_def min_def)

theorem max_tokens_clamp_witness:
  "max_tokens (JString (replicate 1000 (CHR ''a''))) 4096 = Inr 500 \<and>
   max_tokens (JString (replicate 1000 (CHR ''a''))) 200 = Inr 128 \<and>
   max_tokens (JString (replicate 5000 (CHR ''a''))) 4096 = Inr 2048"
  using max_tokens_clamp [of "replicate 1000 (CHR ''a'')" 4096]
    max_tokens_clamp [of "replicate 1000 (CHR ''a'')" 200]
    max_tokens_clamp [of "replicate 5000 (CHR ''a'')" 4096]
  by (simp add: clamp_spec_def)

text \<open>
  C9. When an exception occurs while the download streams (in the request, in opening
  the destination, in a read or in a write), \<^verbatim>\<open>_download_file\<close> raises the wrapped
  failure that carries this exception, also when the removal of the destination fails
  in turn, and when the removal succeeds the destination file is gone. When no exception
  occurs the call returns and the destination file holds the whole streamed content.
\<close>

theorem download_file_outcome:
  "(stream_failure n = Some exc \<longrightarrow>
      fst (download_file n destination fs) =
        Inl (RuntimeError (''Failed to download model: '' @ message exc) exc) \<and>
      (remove_error n = None \<longrightarrow> snd (download_file n destination fs) destination = None)) \<and>
   (stream_failure n = None \<longrightarrow>
      fst (download_file n destination fs) = Inr () \<and>
      (\<exists>reads. request n = Inr reads \<and>
         snd (download_file n destination fs) destination = Some (streamed reads)))"
proof (intro conjI impI)
  assume f: "stream_failure n = Some exc"
  show "fst (download_file n destination fs) =
      Inl (RuntimeError (''Failed to download model: '' @ message exc) exc)"
    using f
    by (auto simp: stream_failure_def download_file_def download_failed_result
        split: sum.splits option.splits prod.splits)
  assume r: "remove_error n = None"
  show "snd (download_file n destination fs) destination = None"
    using f r
    by (auto simp: stream_failure_def download_file_def download_failed_removed
        split: sum.splits option.splits prod.splits)
next
  assume f: "stream_failure n = None"
  then obtain reads where q: "request n = Inr reads" and o: "open_error n = None"
    and s: "fst (stream_loop (write_error n) reads [] 0) = None"
    by (auto simp: stream_failure_def split: sum.splits option.splits)
  from stream_loop_content [OF s]
  have c: "stream_loop (write_error n) reads [] 0 = (None, streamed reads)"
    using s by (cases "stream_loop (write_error n) reads [] 0") simp
  show "fst (download_file n destination fs) = Inr ()"
    by (simp add: download_file_def q o c)
  show "\<exists>reads. request n = Inr reads \<and>
      snd (download_file n destination fs) destination = Some (streamed reads)"
    by (simp add: download_file_def q o c)
qed

theorem download_file_outcome_witness:
  "stream_failure net_bad = Some (Error ''reset'') \<and> remove_error net_bad = None \<and>
   fst (download_file net_bad ''m.gguf'' Map.empty) =
     Inl (RuntimeError ''Failed to download model: reset'' (Error ''reset'')) \<and>
   snd (download_file net_bad ''m.gguf'' Map.empty) ''m.gguf'' = None \<and>
   stream_failure net_ok = None \<and>
   fst (download_file net_ok ''m.gguf'' Map.empty) = Inr () \<and>
   snd (download_file net_ok ''m.gguf'' Map.empty) ''m.gguf'' = Some ''abc''"
proof -
  have b: "stream_failure net_bad = Some (Error ''reset'')"
    by (simp add: stream_failure_def net_bad_def)
  have r: "remove_error net_bad = None"
    by (simp add: net_bad_def)
  have k: "stream_failure net_ok = None"
    by (simp add: stream_failure_def net_ok_def)
  have q: "request net_ok = Inr [Inr ''ab'', Inr ''c'', Inr []]"
    by (simp add: net_ok_def)
  have s: "streamed [Inr ''ab'', Inr ''c'', Inr []] = ''abc''"
    by (simp add: streamed_def)
  from download_file_outcome [of net_bad "Error ''reset''" "''m.gguf''" Map.empty] b r
  have 1: "fst (download_file net_bad ''m.gguf'' Map.empty) =
      Inl (RuntimeError ''Failed to download model: reset'' (Error ''reset''))"
    and 2: "snd (download_file net_bad ''m.gguf'' Map.empty) ''m.gguf'' = None"
    by simp_all
  from download_file_outcome [of net_ok _ "''m.gguf''" Map.empty] k
  have 3: "fst (download_file net_ok ''m.gguf'' Map.empty) = Inr ()"
    and "\<exists>reads. request net_ok = Inr reads \<and>
      snd (download_file net_ok ''m.gguf'' Map.empty) ''m.gguf'' = Some (streamed reads)"
    by blast+
  then have 4: "snd (download_file net_ok ''m.gguf'' Map.empty) ''m.gguf'' = Some ''abc''"
    using q s by auto
  from b r 1 2 k 3 4 show ?thesis by blast
qed

text \<open>
  C10. The response text that \<^verbatim>\<open>_process_one\<close> computes from the generated output
  never ends in white space, so it has no trailing blank line: it is empty or its last
  character is not a white space character. Both spacing passes return a right-stripped
  text.
\<close>

theorem normalize_no_trailing_space:
  "rstrip (normalize_output output) = normalize_output output \<and>
   (normalize_output output = [] \<or> \<not> is_space (last (normalize_output output))) \<and>
   rstrip (add_table_spacing text) = add_table_spacing text \<and>
   rstrip (add_option_spacing text) = add_option_spacing text"
proof -
  have t: "rstrip (add_table_spacing x) = add_table_spacing x" for x
    by (simp add: add_table_spacing_eq)
  have o: "rstrip (add_option_spacing x) = add_option_spacing x" for x
    by (simp add: add_option_spacing_eq)
  have n: "rstrip (normalize_output output) = normalize_output output"
    by (simp add: normalize_output_def Let_def o)
  from rstrip_last [of "normalize_output output"]
  have "normalize_output output = [] \<or> \<not> is_space (last (normalize_output output))"
    by (simp only: n)
  with n t o show ?thesis by blast
qed

theorem normalize_no_trailing_space_witness:
  "normalize_output ''<<<OUT>>>\<newline>Q:  \<newline>A. x \<newline>|a|b|  \<newline>  \<newline><<<ENDOUT>>>'' =
     ''Q:  \<newline>\<newline>A. x \<newline>\<newline>|a|b|'' \<and>
   rstrip ''Q:  \<newline>\<newline>A. x \<newline>\<newline>|a|b|'' = ''Q:  \<newline>\<newline>A. x \<newline>\<newline>|a|b|''"
proof -
  let ?s = "''<<<OUT>>>\<newline>Q:  \<newline>A. x \<newline>|a|b|  \<newline>  \<newline><<<ENDOUT>>>''"
  have e: "normalize_output ?s = ''Q:  \<newline>\<newline>A. x \<newline>\<newline>|a|b|''"
    by code_simp
  from normalize_no_trailing_space [of ?s]
  have "rstrip (normalize_output ?s) = normalize_output ?s" by blast
  with e show ?thesis by simp
qed

end
